theory Spec2Isabelle
  imports Main "HOL-Library.AList" "HOL-Library.Char_ord" "HOL-Library.List_Lexorder"
begin

section \<open>Identity and naming\<close>

text \<open>
  Go strings are byte sequences; they are modelled as \<open>string\<close> (a list of 8-bit
  characters), and string comparison is the bytewise lexicographic order.
\<close>

subsection \<open>\<open>slugify\<close> (main.go, lines 487-493)\<close>

definition is_slug_char :: "char \<Rightarrow> bool" where
  \<comment> \<open>the character class \<open>[a-z0-9]\<close>\<close>
  "is_slug_char c = (c \<in> set ''abcdefghijklmnopqrstuvwxyz0123456789'')"

definition lower_ascii :: "char \<Rightarrow> char" where
  "lower_ascii c =
     (case map_of (zip ''ABCDEFGHIJKLMNOPQRSTUVWXYZ'' ''abcdefghijklmnopqrstuvwxyz'') c of
        Some l \<Rightarrow> l
      | None \<Rightarrow> c)"

text \<open>
  \<open>strings.ToLower\<close>, as far as \<open>slugify\<close> can observe it. ASCII capitals become
  small letters. Two code points outside ASCII have an ASCII lower case: U+212A (KELVIN
  SIGN, bytes E2 84 AA) becomes \<open>k\<close> and U+0130 (bytes C4 B0) becomes \<open>i\<close>. Every
  other byte from 0x80 up is kept: Go would rewrite such a rune to another rune outside
  ASCII, and whichever it is, the regular expression below replaces it.
\<close>

fun ToLower :: "string \<Rightarrow> string" where
  "ToLower (a # b # c # cs) =
     (if [a, b, c] = [CHR 0xE2, CHR 0x84, CHR 0xAA] then CHR ''k'' # ToLower cs
      else if [a, b] = [CHR 0xC4, CHR 0xB0] then CHR ''i'' # ToLower (c # cs)
      else lower_ascii a # ToLower (b # c # cs))"
| "ToLower [a, b] =
     (if [a, b] = [CHR 0xC4, CHR 0xB0] then [CHR ''i''] else [lower_ascii a, lower_ascii b])"
| "ToLower [a] = [lower_ascii a]"
| "ToLower [] = []"

text \<open>
  \<open>regexp.MustCompile(`[^a-z0-9]+`).ReplaceAllString(value, "-")\<close>: scanning from the
  left, each maximal run of characters outside the class is replaced by one \<open>-\<close>.
\<close>

function ReplaceAllString :: "string \<Rightarrow> string" where
  "ReplaceAllString [] = []"
| "ReplaceAllString (c # cs) =
     (if is_slug_char c then c # ReplaceAllString cs
      else CHR ''-'' # ReplaceAllString (dropWhile (\<lambda>x. \<not> is_slug_char x) cs))"
  by pat_completeness auto
termination
  by (relation "measure length") (auto simp: length_dropWhile_le less_Suc_eq_le)

definition TrimLeft :: "string \<Rightarrow> string \<Rightarrow> string" where
  "TrimLeft s cutset = dropWhile (\<lambda>c. c \<in> set cutset) s"

definition TrimRight :: "string \<Rightarrow> string \<Rightarrow> string" where
  "TrimRight s cutset = rev (dropWhile (\<lambda>c. c \<in> set cutset) (rev s))"

definition Trim :: "string \<Rightarrow> string \<Rightarrow> string" where
  "Trim s cutset = TrimRight (TrimLeft s cutset) cutset"

definition slugify :: "string \<Rightarrow> string" where
  "slugify v = Trim (ReplaceAllString (ToLower v)) ''-''"

subsection \<open>The slug as the specification words it\<close>

text \<open>
  "Lowercase, collapse any run of non \<open>[a-z0-9]\<close> characters to a single \<open>-\<close>, trim
  leading/trailing \<open>-\<close>": every character outside the class is turned into \<open>-\<close>, a
  \<open>-\<close> that follows a \<open>-\<close> is dropped, and the \<open>-\<close> at both ends are removed.
\<close>

definition dash :: "char \<Rightarrow> char" where
  "dash c = (if is_slug_char c then c else CHR ''-'')"

fun squeeze :: "string \<Rightarrow> string" where
  "squeeze (a # b # cs) =
     (if a = CHR ''-'' \<and> b = CHR ''-'' then squeeze (b # cs) else a # squeeze (b # cs))"
| "squeeze cs = cs"

definition strip_dashes :: "string \<Rightarrow> string" where
  "strip_dashes s =
     rev (dropWhile (\<lambda>c. c = CHR ''-'') (rev (dropWhile (\<lambda>c. c = CHR ''-'') s)))"

definition slug_spec :: "string \<Rightarrow> string" where
  "slug_spec v = strip_dashes (squeeze (map dash (ToLower v)))"

subsection \<open>\<open>%d\<close> of \<open>fmt.Sprintf\<close> on a non-negative index\<close>

definition digit_char :: "nat \<Rightarrow> char" where
  "digit_char d = ''0123456789'' ! (d mod 10)"

function itoa :: "nat \<Rightarrow> string" where
  "itoa n = (if n < 10 then [digit_char n] else itoa (n div 10) @ [digit_char (n mod 10)])"
  by pat_completeness auto
termination
  by (relation "measure id") auto

declare itoa.simps [simp del]

section \<open>State Store\<close>

datatype error = NilMapAssignment
  \<comment> \<open>the run-time panic "assignment to entry in nil map"\<close>

text \<open>
  A Go value of type \<open>map[string]bool\<close>: the nil map, or an allocated map, kept as an
  association list that is read with \<open>map_of\<close>. Reading the nil map finds nothing;
  assigning to it panics.
\<close>

datatype gomap = NilMap | GoMap "(string \<times> bool) list"

fun gm_lookup :: "gomap \<Rightarrow> string \<Rightarrow> bool option" where
  "gm_lookup NilMap k = None"
| "gm_lookup (GoMap al) k = map_of al k"

fun gm_assign :: "gomap \<Rightarrow> string \<Rightarrow> bool \<Rightarrow> error + gomap" where
  "gm_assign NilMap k v = Inl NilMapAssignment"
| "gm_assign (GoMap al) k v = Inr (GoMap (AList.update k v al))"

fun gm_wf :: "gomap \<Rightarrow> bool" where
  \<comment> \<open>a Go map holds each key once\<close>
  "gm_wf NilMap = True"
| "gm_wf (GoMap al) = distinct (map fst al)"

text \<open>
  A file is modelled by what its bytes are as a JSON document: text that is not JSON, the
  literal \<open>null\<close>, an object (its members in order, each with its decoded key and a value
  that is a boolean, \<open>null\<close> or anything else), or another JSON value. The disk maps a path to the document stored
  there; \<open>os.ReadFile\<close> fails where there is none.
\<close>

datatype jvalue = JBool bool | JNull | JOther

datatype jdoc = Malformed | DocNull | DocObject "(string \<times> jvalue) list" | DocOther

type_synonym disk = "string \<Rightarrow> jdoc option"

text \<open>
  \<open>json.Unmarshal(data, &state)\<close> for \<open>var state map[string]bool\<close>, \<open>None\<close> standing
  for a non-nil error. The document \<open>null\<close> sets the map to nil and is no error. An
  object allocates the map and stores its members from left to right, a later member
  replacing an earlier one with the same key; a \<open>null\<close> member stores the zero value
  \<open>false\<close>; a member of another type is an \<open>UnmarshalTypeError\<close>.
\<close>

fun decode_members :: "(string \<times> jvalue) list \<Rightarrow> (string \<times> bool) list \<Rightarrow> (string \<times> bool) list option" where
  "decode_members [] m = Some m"
| "decode_members ((k, JBool b) # ms) m = decode_members ms (AList.update k b m)"
| "decode_members ((k, JNull) # ms) m = decode_members ms (AList.update k False m)"
| "decode_members ((k, JOther) # ms) m = None"

fun Unmarshal :: "jdoc \<Rightarrow> gomap option" where
  "Unmarshal Malformed = None"
| "Unmarshal DocNull = Some NilMap"
| "Unmarshal (DocObject ms) = map_option GoMap (decode_members ms [])"
| "Unmarshal DocOther = None"

text \<open>
  The encoder writes every string coerced to valid UTF-8: scanning from the left, a byte
  that does not begin a well-formed UTF-8 sequence (as \<open>utf8.DecodeRune\<close> judges it) is
  replaced by U+FFFD, bytes EF BF BD. \<open>rune_len s\<close> is the length of the well-formed
  sequence at the head of \<open>s\<close>, or 0 if there is none.
\<close>

definition byte_in :: "char \<Rightarrow> nat \<Rightarrow> nat \<Rightarrow> bool" where
  "byte_in c lo hi = (lo \<le> of_char c \<and> of_char c \<le> hi)"

definition second_lo :: "char \<Rightarrow> nat" where
  "second_lo a = (if a = CHR 0xE0 then 0xA0 else if a = CHR 0xF0 then 0x90 else 0x80)"

definition second_hi :: "char \<Rightarrow> nat" where
  "second_hi a = (if a = CHR 0xED then 0x9F else if a = CHR 0xF4 then 0x8F else 0xBF)"

fun rune_len :: "string \<Rightarrow> nat" where
  "rune_len [] = 0"
| "rune_len (a # s) =
     (if byte_in a 0 0x7F then 1
      else if byte_in a 0xC2 0xDF then
        (case s of
           b # _ \<Rightarrow> if byte_in b 0x80 0xBF then 2 else 0
         | _ \<Rightarrow> 0)
      else if byte_in a 0xE0 0xEF then
        (case s of
           b # c # _ \<Rightarrow>
             if byte_in b (second_lo a) (second_hi a) \<and> byte_in c 0x80 0xBF then 3 else 0
         | _ \<Rightarrow> 0)
      else if byte_in a 0xF0 0xF4 then
        (case s of
           b # c # d # _ \<Rightarrow>
             if byte_in b (second_lo a) (second_hi a) \<and> byte_in c 0x80 0xBF
                \<and> byte_in d 0x80 0xBF then 4 else 0
         | _ \<Rightarrow> 0)
      else 0)"

function coerce_utf8 :: "string \<Rightarrow> string" where
  "coerce_utf8 [] = []"
| "coerce_utf8 (a # s) =
     (if rune_len (a # s) = 0 then [CHR 0xEF, CHR 0xBF, CHR 0xBD] @ coerce_utf8 s
      else take (rune_len (a # s)) (a # s) @ coerce_utf8 (drop (rune_len (a # s)) (a # s)))"
  by pat_completeness auto
termination
  by (relation "measure length") auto

declare coerce_utf8.simps(2) [simp del]

fun utf8_keys :: "gomap \<Rightarrow> bool" where
  \<comment> \<open>every key is valid UTF-8, so that the encoder writes it as it is\<close>
  "utf8_keys NilMap = True"
| "utf8_keys (GoMap al) = list_all (\<lambda>(k, v). coerce_utf8 k = k) al"

text \<open>\<open>json.MarshalIndent(state, "", "  ")\<close>: \<open>null\<close> for the nil map, else an object with
  the keys in sorted order, each written coerced to valid UTF-8. It cannot fail on this
  type.\<close>

fun MarshalIndent :: "gomap \<Rightarrow> jdoc" where
  "MarshalIndent NilMap = DocNull"
| "MarshalIndent (GoMap al) =
     DocObject (map (\<lambda>(k, v). (coerce_utf8 k, JBool v)) (sort_key fst al))"

definition loadState :: "disk \<Rightarrow> string \<Rightarrow> gomap" where
  "loadState dsk path =
     (case dsk path of
        None \<Rightarrow> GoMap []
      | Some data \<Rightarrow> (case Unmarshal data of None \<Rightarrow> GoMap [] | Some st \<Rightarrow> st))"

text \<open>
  What the file system does to one \<open>saveState\<close>: both calls succeed, \<open>os.MkdirAll\<close>
  fails, or \<open>os.WriteFile\<close> fails and leaves the given content behind.
\<close>

datatype fs_result = FsOk | MkdirFailed | WriteFailed "jdoc option"

fun saveState :: "fs_result \<Rightarrow> string \<Rightarrow> gomap \<Rightarrow> disk \<Rightarrow> bool \<times> disk" where
  \<comment> \<open>the first component says whether an error is returned\<close>
  "saveState FsOk path st dsk = (False, dsk(path \<mapsto> MarshalIndent st))"
| "saveState MkdirFailed path st dsk = (True, dsk)"
| "saveState (WriteFailed left) path st dsk = (True, dsk(path := left))"

section \<open>The agent\<close>

record Config =
  MediaMtxRtspBase :: string
  FfmpegPath :: string
  StateFile :: string

record DeviceInfo =
  dev_Name :: string
  dev_Node :: string

record Camera =
  DeviceUID :: string
  Name :: string
  Node :: string
  StreamPath :: string
  RtspURL :: string
  Enabled :: bool
  Publishing :: bool

text \<open>
  An \<open>exec.Cmd\<close> that was started, with the goroutine that waits for it
  (main.go, lines 249-271). The goroutine is \<open>Waiting\<close> in \<open>cmd.Wait()\<close>, \<open>Sleeping\<close>
  through the restart delay, or \<open>Finished\<close>. A process is named by its index in the
  list of all processes started so far.
\<close>

datatype proc_status = Running | Exited bool
  \<comment> \<open>\<open>Exited err\<close>: \<open>cmd.Wait()\<close> returned, with a non-nil error iff \<open>err\<close>\<close>

datatype watcher = Waiting | Sleeping | Finished

record Proc =
  p_uid :: string
  p_cmd :: "string list"
  p_status :: proc_status
  p_watcher :: watcher

datatype log_entry =
    StderrPipeError string
  | StartFailed string
  | ExitedWithError string

text \<open>
  The fields of \<open>Agent\<close>, followed by the surroundings the agent acts on: the processes
  it has started, the interrupts it has sent, the disk, and the lines it has logged about
  its own failures (the lines it forwards from an encoder's standard error are left out).
  The mutex makes each critical section one atomic step on this record.
\<close>

record Agent =
  cfg :: Config
  hostname :: string
  cameras :: "(string \<times> Camera) list"
  publishers :: "(string \<times> nat) list"
  state :: gomap
  procs :: "Proc list"
  signals :: "nat list"
  disk :: disk
  logged :: "log_entry list"

text \<open>What the surroundings answer during one critical section.\<close>

datatype start_result = Started | PipeError | StartError

record env =
  start :: "string \<Rightarrow> start_result"
  fs :: fs_result

subsection \<open>Publisher Supervisor (main.go, lines 201-285)\<close>

definition ffmpeg_args :: "Camera \<Rightarrow> string list" where
  "ffmpeg_args camera =
     [''-f'', ''v4l2'', ''-i'', Node camera, ''-vf'', ''format=yuv420p'', ''-c:v'', ''libx264'',
      ''-preset'', ''veryfast'', ''-tune'', ''zerolatency'', ''-profile:v'', ''baseline'',
      ''-level:v'', ''3.1'', ''-pix_fmt'', ''yuv420p'', ''-f'', ''rtsp'',
      ''-rtsp_transport'', ''tcp'', RtspURL camera]"

text \<open>
  \<open>ensurePublisherLocked\<close> writes \<open>camera.Publishing\<close> through the pointer it is given;
  the model returns the camera, and each caller stores it where the pointer pointed.
\<close>

definition ensurePublisherLocked :: "(string \<Rightarrow> start_result) \<Rightarrow> Camera \<Rightarrow> Agent \<Rightarrow> Camera \<times> Agent" where
  "ensurePublisherLocked st camera a =
     (if map_of (publishers a) (DeviceUID camera) \<noteq> None then (camera, a)
      else case st (DeviceUID camera) of
             PipeError \<Rightarrow> (camera, a\<lparr>logged := logged a @ [StderrPipeError (DeviceUID camera)]\<rparr>)
           | StartError \<Rightarrow> (camera, a\<lparr>logged := logged a @ [StartFailed (DeviceUID camera)]\<rparr>)
           | Started \<Rightarrow>
               (camera\<lparr>Publishing := True\<rparr>,
                a\<lparr>publishers := AList.update (DeviceUID camera) (length (procs a)) (publishers a),
                  procs := procs a @
                    [\<lparr>p_uid = DeviceUID camera,
                      p_cmd = FfmpegPath (cfg a) # ffmpeg_args camera,
                      p_status = Running,
                      p_watcher = Waiting\<rparr>]\<rparr>))"

definition stopPublisherLocked :: "string \<Rightarrow> Agent \<Rightarrow> Agent" where
  "stopPublisherLocked uid a =
     (case map_of (publishers a) uid of
        None \<Rightarrow> a
      | Some cmd \<Rightarrow>
          a\<lparr>signals := signals a @ [cmd],
            publishers := AList.delete uid (publishers a),
            cameras := (case map_of (cameras a) uid of
                          None \<Rightarrow> cameras a
                        | Some cam \<Rightarrow> AList.update uid (cam\<lparr>Publishing := False\<rparr>) (cameras a))\<rparr>)"

text \<open>\<open>a.ensurePublisherLocked(cam)\<close> for \<open>cam = a.cameras[uid]\<close>, the camera of the table.\<close>

definition ensure_in_table :: "(string \<Rightarrow> start_result) \<Rightarrow> string \<Rightarrow> Camera \<Rightarrow> Agent \<Rightarrow> Agent" where
  "ensure_in_table st uid cam a =
     (case ensurePublisherLocked st cam a of
        (cam', a') \<Rightarrow> a'\<lparr>cameras := AList.update uid cam' (cameras a')\<rparr>)"

text \<open>
  The process ends (an event of the surroundings), and the goroutine's two critical
  sections: the first after \<open>cmd.Wait()\<close> has returned, the second after the sleep.
\<close>

definition proc_exit :: "nat \<Rightarrow> bool \<Rightarrow> Agent \<Rightarrow> Agent" where
  "proc_exit pid err a =
     (if pid < length (procs a) \<and> p_status (procs a ! pid) = Running
      then a\<lparr>procs := (procs a)[pid := (procs a ! pid)\<lparr>p_status := Exited err\<rparr>]\<rparr>
      else a)"

definition watcher_exit :: "nat \<Rightarrow> Agent \<Rightarrow> Agent" where
  "watcher_exit pid a =
     (if pid < length (procs a) \<and> p_watcher (procs a ! pid) = Waiting
         \<and> p_status (procs a ! pid) \<noteq> Running
      then let p = procs a ! pid;
               uid = p_uid p;
               a1 = a\<lparr>publishers := AList.delete uid (publishers a)\<rparr>;
               enabled = (case map_of (cameras a1) uid of None \<Rightarrow> False | Some cam \<Rightarrow> Enabled cam);
               a2 = (if p_status p = Exited True
                     then a1\<lparr>logged := logged a1 @ [ExitedWithError uid]\<rparr> else a1)
           in a2\<lparr>procs := (procs a2)[pid := p\<lparr>p_watcher := (if enabled then Sleeping else Finished)\<rparr>]\<rparr>
      else a)"

definition watcher_restart :: "(string \<Rightarrow> start_result) \<Rightarrow> nat \<Rightarrow> Agent \<Rightarrow> Agent" where
  "watcher_restart st pid a =
     (if pid < length (procs a) \<and> p_watcher (procs a ! pid) = Sleeping
      then let p = procs a ! pid;
               uid = p_uid p;
               a1 = a\<lparr>procs := (procs a)[pid := p\<lparr>p_watcher := Finished\<rparr>]\<rparr>
           in (case map_of (cameras a1) uid of
                 None \<Rightarrow> a1
               | Some cam \<Rightarrow> if Enabled cam then ensure_in_table st uid cam a1 else a1)
      else a)"

subsection \<open>Reconciliation Engine: \<open>refreshCameras\<close> (main.go, lines 147-199)\<close>

definition camera_name :: "nat \<Rightarrow> DeviceInfo \<Rightarrow> string" where
  "camera_name idx device =
     (if dev_Name device = [] then ''Camera '' @ itoa (idx + 1) else dev_Name device)"

definition stream_path :: "string \<Rightarrow> string \<Rightarrow> nat \<Rightarrow> string" where
  "stream_path hostSlug name idx = hostSlug @ ''-'' @ slugify name @ ''-'' @ itoa idx"

definition device_uid :: "string \<Rightarrow> string \<Rightarrow> string" where
  "device_uid host node = host @ '':'' @ node"

text \<open>
  Lines 167-171: the flag comes from the state mapping; a \<open>deviceUID\<close> that has no key
  there is enabled and gets the key.
\<close>

definition resolve_enabled :: "gomap \<Rightarrow> string \<Rightarrow> error + (bool \<times> gomap)" where
  "resolve_enabled st deviceUID =
     (case gm_lookup st deviceUID of
        Some enabled \<Rightarrow> Inr (enabled, st)
      | None \<Rightarrow> (case gm_assign st deviceUID True of
                   Inl err \<Rightarrow> Inl err
                 | Inr st' \<Rightarrow> Inr (True, st')))"

text \<open>Lines 160-166 and 173-181: the \<open>Camera\<close> built for the device at index \<open>idx\<close>.\<close>

definition new_camera :: "Agent \<Rightarrow> string \<Rightarrow> nat \<Rightarrow> DeviceInfo \<Rightarrow> bool \<Rightarrow> Camera" where
  "new_camera a hostSlug idx device enabled =
     (let name = camera_name idx device;
          streamPath = stream_path hostSlug name idx;
          deviceUID = device_uid (hostname a) (dev_Node device)
      in \<lparr>DeviceUID = deviceUID,
          Name = name,
          Node = dev_Node device,
          StreamPath = streamPath,
          RtspURL = TrimRight (MediaMtxRtspBase (cfg a)) ''/'' @ ''/'' @ streamPath,
          Enabled = enabled,
          Publishing = (map_of (publishers a) deviceUID \<noteq> None)\<rparr>)"

text \<open>One pass of the loop over the sorted devices (lines 159-189).\<close>

definition refresh_device ::
  "env \<Rightarrow> string \<Rightarrow> nat \<Rightarrow> DeviceInfo \<Rightarrow> (string \<times> Camera) list \<Rightarrow> Agent
     \<Rightarrow> error + ((string \<times> Camera) list \<times> Agent)" where
  "refresh_device e hostSlug idx device nxt a =
     (let deviceUID = device_uid (hostname a) (dev_Node device)
      in case resolve_enabled (state a) deviceUID of
           Inl err \<Rightarrow> Inl err
         | Inr (enabled, st) \<Rightarrow>
             (let a1 = a\<lparr>state := st\<rparr>;
                  camera = new_camera a1 hostSlug idx device enabled
              in if enabled
                 then (case ensurePublisherLocked (start e) camera a1 of
                         (camera', a2) \<Rightarrow> Inr (AList.update deviceUID camera' nxt, a2))
                 else Inr (AList.update deviceUID camera nxt, stopPublisherLocked deviceUID a1)))"

fun refresh_devices ::
  "env \<Rightarrow> string \<Rightarrow> nat \<Rightarrow> DeviceInfo list \<Rightarrow> (string \<times> Camera) list \<Rightarrow> Agent
     \<Rightarrow> error + ((string \<times> Camera) list \<times> Agent)" where
  "refresh_devices e hostSlug idx [] nxt a = Inr (nxt, a)"
| "refresh_devices e hostSlug idx (device # devices) nxt a =
     (case refresh_device e hostSlug idx device nxt a of
        Inl err \<Rightarrow> Inl err
      | Inr (nxt', a') \<Rightarrow> refresh_devices e hostSlug (idx + 1) devices nxt' a')"

text \<open>
  The loop over the previous table (lines 191-195). Go ranges over a map in an order it
  does not fix; the loop here takes the keys in the order of the list. Only the order of
  the interrupts sent depends on it.
\<close>

fun stop_vanished :: "(string \<times> Camera) list \<Rightarrow> string list \<Rightarrow> Agent \<Rightarrow> Agent" where
  "stop_vanished nxt [] a = a"
| "stop_vanished nxt (uid # uids) a =
     stop_vanished nxt uids (if map_of nxt uid = None then stopPublisherLocked uid a else a)"

text \<open>
  \<open>sort.Slice\<close> is not stable; the model sorts stably. The two agree whenever no two
  devices share a node.
\<close>

definition refreshCameras :: "DeviceInfo list \<Rightarrow> env \<Rightarrow> Agent \<Rightarrow> error + Agent" where
  "refreshCameras discovered e a =
     (let devices = sort_key dev_Node discovered;
          hostSlug = slugify (hostname a)
      in case refresh_devices e hostSlug 0 devices [] a of
           Inl err \<Rightarrow> Inl err
         | Inr (nxt, a1) \<Rightarrow>
             (let a2 = stop_vanished nxt (map fst (cameras a1)) a1;
                  a3 = a2\<lparr>cameras := nxt\<rparr>
              in Inr (a3\<lparr>disk := snd (saveState (fs e) (StateFile (cfg a3)) (state a3) (disk a3))\<rparr>)))"

subsection \<open>Control API: \<open>handleToggle\<close> (main.go, lines 353-386)\<close>

datatype response = MethodNotAllowed | BadRequest | NotFound | StatusOK

text \<open>
  A request: its method and the payload that stands in its body, \<open>(deviceUid, enabled)\<close>,
  or \<open>None\<close> when the body is not such a JSON object. \<open>req_body\<close> is what
  \<open>json.NewDecoder(r.Body).Decode(&payload)\<close> (line 363) yields: the decoder coerces the
  string to valid UTF-8, so the handler never sees a \<open>deviceUid\<close> with an invalid byte.
\<close>

record request =
  req_method :: string
  req_payload :: "(string \<times> bool) option"

definition req_body :: "request \<Rightarrow> (string \<times> bool) option" where
  "req_body r = map_option (\<lambda>(uid, enabled). (coerce_utf8 uid, enabled)) (req_payload r)"

definition handleToggle :: "env \<Rightarrow> request \<Rightarrow> Agent \<Rightarrow> error + (response \<times> Agent)" where
  "handleToggle e r a =
     (if req_method r \<noteq> ''POST'' then Inr (MethodNotAllowed, a)
      else case req_body r of
             None \<Rightarrow> Inr (BadRequest, a)
           | Some (uid, enabled) \<Rightarrow>
               (case map_of (cameras a) uid of
                  None \<Rightarrow> Inr (NotFound, a)
                | Some cam0 \<Rightarrow>
                    (let cam = cam0\<lparr>Enabled := enabled\<rparr>;
                         a1 = a\<lparr>cameras := AList.update uid cam (cameras a)\<rparr>
                     in case gm_assign (state a1) uid enabled of
                          Inl err \<Rightarrow> Inl err
                        | Inr st \<Rightarrow>
                            (let a2 = a1\<lparr>state := st\<rparr>;
                                 a3 = (if enabled then ensure_in_table (start e) uid cam a2
                                       else stopPublisherLocked uid a2)
                             in Inr (StatusOK,
                                  a3\<lparr>disk := snd (saveState (fs e) (StateFile (cfg a3)) (state a3) (disk a3))\<rparr>)))))"

subsection \<open>The running agent\<close>

definition new_agent :: "Config \<Rightarrow> string \<Rightarrow> disk \<Rightarrow> Agent" where
  \<comment> \<open>the \<open>Agent\<close> that \<open>main\<close> builds\<close>
  "new_agent c host dsk =
     \<lparr>cfg = c, hostname = host, cameras = [], publishers = [],
      state = loadState dsk (StateFile c),
      procs = [], signals = [], disk = dsk, logged = []\<rparr>"

datatype event =
    Refresh "DeviceInfo list" env
  | Toggle request env
  | ProcExit nat bool
  | WatcherExit nat
  | WatcherRestart nat "string \<Rightarrow> start_result"

fun step :: "event \<Rightarrow> Agent \<Rightarrow> error + Agent" where
  "step (Refresh discovered e) a = refreshCameras discovered e a"
| "step (Toggle r e) a = (case handleToggle e r a of Inl err \<Rightarrow> Inl err | Inr (_, a') \<Rightarrow> Inr a')"
| "step (ProcExit pid err) a = Inr (proc_exit pid err a)"
| "step (WatcherExit pid) a = Inr (watcher_exit pid a)"
| "step (WatcherRestart pid st) a = Inr (watcher_restart st pid a)"

fun run :: "event list \<Rightarrow> Agent \<Rightarrow> error + Agent" where
  "run [] a = Inr a"
| "run (ev # evs) a = (case step ev a of Inl err \<Rightarrow> Inl err | Inr a' \<Rightarrow> run evs a')"

inductive reachable :: "Agent \<Rightarrow> bool" where
  reachable_new: "reachable (new_agent c host dsk)"
| reachable_step: "reachable a \<Longrightarrow> step ev a = Inr a' \<Longrightarrow> reachable a'"

text \<open>The processes started for a device that are running and were never interrupted.\<close>

definition live_procs :: "Agent \<Rightarrow> string \<Rightarrow> nat list" where
  "live_procs a uid =
     filter (\<lambda>pid. p_uid (procs a ! pid) = uid \<and> p_status (procs a ! pid) = Running
                   \<and> pid \<notin> set (signals a))
       [0 ..< length (procs a)]"

section \<open>Auxiliary notions and concrete inputs\<close>

text \<open>The camera that the loop builds for device \<open>d\<close> at index \<open>idx\<close>, up to its flags.\<close>

definition built_for :: "Agent \<Rightarrow> string \<Rightarrow> nat \<Rightarrow> DeviceInfo \<Rightarrow> Camera \<Rightarrow> bool" where
  "built_for a hs idx d cam \<longleftrightarrow>
     DeviceUID cam = device_uid (hostname a) (dev_Node d) \<and>
     Name cam = camera_name idx d \<and>
     Node cam = dev_Node d \<and>
     StreamPath cam = stream_path hs (camera_name idx d) idx"

definition uids_of :: "string \<Rightarrow> DeviceInfo list \<Rightarrow> string set" where
  "uids_of host ds = (\<lambda>d. device_uid host (dev_Node d)) ` set ds"

definition c0 :: Config where
  "c0 = \<lparr>MediaMtxRtspBase = ''rtsp://localhost:8554/'', FfmpegPath = ''ffmpeg'',
         StateFile = ''data/agent_state.json''\<rparr>"

definition d0 :: DeviceInfo where
  "d0 = \<lparr>dev_Name = [], dev_Node = ''/dev/video0''\<rparr>"

definition u0 :: string where
  "u0 = ''cam-1:/dev/video0''"

definition ok :: env where
  "ok = \<lparr>start = (\<lambda>_. Started), fs = FsOk\<rparr>"

definition toggle_req :: "string \<Rightarrow> bool \<Rightarrow> request" where
  "toggle_req uid enabled = \<lparr>req_method = ''POST'', req_payload = Some (uid, enabled)\<rparr>"

text \<open>
  A schedule: the device is discovered and its encoder started; the camera is disabled
  and enabled again while the interrupted encoder is still running; that encoder then
  ends, and its goroutine runs its two critical sections.
\<close>

definition toggle_trace :: "event list" where
  "toggle_trace =
     [Refresh [d0] ok,
      Toggle (toggle_req u0 False) ok,
      Toggle (toggle_req u0 True) ok,
      ProcExit 0 True,
      WatcherExit 0,
      WatcherRestart 0 (\<lambda>_. Started)]"

definition null_disk :: disk where
  "null_disk = [StateFile c0 \<mapsto> DocNull]"

text \<open>
  Four properties of every state the agent can be in: a device with an entry in the live
  set has an enabled camera in the table; the flag of each camera in the table is the flag
  stored for it in the state mapping; each camera is stored under its own \<open>DeviceUID\<close>;
  the state mapping holds each key once.
\<close>

definition inv_pub_enabled :: "Agent \<Rightarrow> bool" where
  "inv_pub_enabled a \<longleftrightarrow>
     (\<forall>uid pid. map_of (publishers a) uid = Some pid \<longrightarrow>
        (\<exists>cam. map_of (cameras a) uid = Some cam \<and> Enabled cam))"

definition inv_cam_state :: "Agent \<Rightarrow> bool" where
  "inv_cam_state a \<longleftrightarrow>
     (\<forall>uid cam. map_of (cameras a) uid = Some cam \<longrightarrow>
        gm_lookup (state a) uid = Some (Enabled cam))"

definition keyed_by_uid :: "(string \<times> Camera) list \<Rightarrow> bool" where
  "keyed_by_uid table \<longleftrightarrow> (\<forall>uid cam. map_of table uid = Some cam \<longrightarrow> DeviceUID cam = uid)"

definition agent_inv :: "Agent \<Rightarrow> bool" where
  "agent_inv a \<longleftrightarrow>
     inv_pub_enabled a \<and> inv_cam_state a \<and> keyed_by_uid (cameras a) \<and> gm_wf (state a)"

text \<open>The same inside the loop of \<open>refreshCameras\<close>, where \<open>nxt\<close> is the table being built.\<close>

definition loop_pub_enabled :: "(string \<times> Camera) list \<Rightarrow> Agent \<Rightarrow> bool" where
  "loop_pub_enabled nxt a \<longleftrightarrow>
     (\<forall>uid pid. map_of (publishers a) uid = Some pid \<longrightarrow>
        (case map_of nxt uid of
           Some cam \<Rightarrow> Enabled cam
         | None \<Rightarrow> (\<exists>cam. map_of (cameras a) uid = Some cam \<and> Enabled cam)))"

definition loop_cam_state :: "(string \<times> Camera) list \<Rightarrow> Agent \<Rightarrow> bool" where
  "loop_cam_state nxt a \<longleftrightarrow>
     (\<forall>uid cam. map_of nxt uid = Some cam \<longrightarrow> gm_lookup (state a) uid = Some (Enabled cam))"

text \<open>The enabled flag that the table holds for a device, if it holds the device.\<close>

definition enabled_of :: "Agent \<Rightarrow> string \<Rightarrow> bool option" where
  "enabled_of a uid = map_option Enabled (map_of (cameras a) uid)"

text \<open>The agent after lines 375-382 of \<open>handleToggle\<close>, for a camera \<open>cam0\<close> found in the
  table and the state mapping \<open>st\<close> after the assignment of line 376.\<close>

definition toggled :: "env \<Rightarrow> string \<Rightarrow> bool \<Rightarrow> Camera \<Rightarrow> gomap \<Rightarrow> Agent \<Rightarrow> Agent" where
  "toggled e uid enabled cam0 st a =
     (let cam = cam0\<lparr>Enabled := enabled\<rparr>;
          a2 = a\<lparr>cameras := AList.update uid cam (cameras a), state := st\<rparr>;
          a3 = (if enabled then ensure_in_table (start e) uid cam a2
                else stopPublisherLocked uid a2)
      in a3\<lparr>disk := snd (saveState (fs e) (StateFile (cfg a)) st (disk a))\<rparr>)"

text \<open>The goroutine of process \<open>pid\<close> has taken the lock after its sleep.\<close>

definition finish_watcher :: "nat \<Rightarrow> Agent \<Rightarrow> Agent" where
  "finish_watcher pid a =
     a\<lparr>procs := (procs a)[pid := (procs a ! pid)\<lparr>p_watcher := Finished\<rparr>]\<rparr>"

text \<open>A schedule: the device is discovered, its encoder started, and the encoder ends.\<close>

definition exit_trace :: "event list" where
  "exit_trace = [Refresh [d0] ok, ProcExit 0 True]"

definition agent0 :: Agent where
  "agent0 = new_agent c0 ''cam-1'' Map.empty"

definition camera0 :: Camera where
  "camera0 = \<lparr>DeviceUID = u0, Name = ''Camera 1'', Node = ''/dev/video0'',
           StreamPath = ''cam-1-camera-1-0'',
           RtspURL = ''rtsp://localhost:8554/cam-1-camera-1-0'',
           Enabled = True, Publishing = False\<rparr>"

definition ffmpeg_missing :: "string \<Rightarrow> start_result" where
  \<comment> \<open>\<open>cmd.Start()\<close> fails for every camera\<close>
  "ffmpeg_missing uid = StartError"

definition unwritable :: env where
  "unwritable = \<lparr>start = (\<lambda>_. Started), fs = MkdirFailed\<rparr>"

text \<open>A schedule: the device is discovered and the state saved; then the camera is disabled
  while the state file cannot be written.\<close>

definition unsaved_trace :: "event list" where
  "unsaved_trace = [Refresh [d0] ok, Toggle (toggle_req u0 False) unwritable]"

text \<open>A schedule: the device is discovered, then the camera is disabled; both saves succeed.\<close>

definition disable_trace :: "event list" where
  "disable_trace = [Refresh [d0] ok, Toggle (toggle_req u0 False) ok]"

text \<open>
  Two devices: the node of \<open>dx\<close> ends in the byte FF, which is not valid UTF-8; the node
  of \<open>dr\<close> ends in the three bytes of U+FFFD, which are. \<open>ux\<close> and \<open>ur\<close> are their
  \<open>deviceUID\<close>s on host \<open>cam-1\<close>. The schedule discovers both and disables \<open>ur\<close>; both
  saves succeed.
\<close>

definition dx :: DeviceInfo where
  "dx = \<lparr>dev_Name = ''Webcam X'', dev_Node = ''/dev/video'' @ [CHR 0xFF]\<rparr>"

definition dr :: DeviceInfo where
  "dr = \<lparr>dev_Name = ''Webcam R'', dev_Node = ''/dev/video'' @ [CHR 0xEF, CHR 0xBF, CHR 0xBD]\<rparr>"

definition ux :: string where
  "ux = ''cam-1:/dev/video'' @ [CHR 0xFF]"

definition ur :: string where
  "ur = ''cam-1:/dev/video'' @ [CHR 0xEF, CHR 0xBF, CHR 0xBD]"

definition disable_ur_trace :: "event list" where
  "disable_ur_trace = [Refresh [dx, dr] ok, Toggle (toggle_req ur False) ok]"

text \<open>The agent that \<open>main\<close> builds from the configuration, host and disk of agent \<open>b\<close>.\<close>

definition restarted :: "Agent \<Rightarrow> Agent" where
  "restarted b = new_agent (cfg b) (hostname b) (disk b)"

section \<open>Proofs\<close>

lemma dash_is_not_slug_char: "\<not> is_slug_char CHR ''-''"
  by (simp add: is_slug_char_def)

lemma squeeze_after_dash:
  "squeeze (CHR ''-'' # map dash cs) =
     CHR ''-'' # squeeze (map dash (dropWhile (\<lambda>x. \<not> is_slug_char x) cs))"
proof (induction cs)
  case Nil
  show ?case by simp
next
  case (Cons c cs)
  show ?case
  proof (cases "is_slug_char c")
    case True
    then have "dash c \<noteq> CHR ''-''"
      using dash_is_not_slug_char by (auto simp: dash_def)
    with True show ?thesis by simp
  next
    case False
    then have "dash c = CHR ''-''" by (simp add: dash_def)
    with False Cons.IH show ?thesis by simp
  qed
qed

lemma squeeze_keeps_slug_char:
  "is_slug_char c \<Longrightarrow> squeeze (c # cs) = c # squeeze cs"
  using dash_is_not_slug_char by (cases cs) auto

lemma ReplaceAllString_squeeze: "ReplaceAllString s = squeeze (map dash s)"
proof (induction s rule: ReplaceAllString.induct)
  case 1
  show ?case by simp
next
  case (2 c cs)
  show ?case
  proof (cases "is_slug_char c")
    case True
    with 2 show ?thesis
      by (simp add: dash_def squeeze_keeps_slug_char)
  next
    case False
    with 2 have "ReplaceAllString (c # cs) =
        CHR ''-'' # squeeze (map dash (dropWhile (\<lambda>x. \<not> is_slug_char x) cs))"
      by simp
    also have "\<dots> = squeeze (CHR ''-'' # map dash cs)"
      by (simp only: squeeze_after_dash)
    also have "\<dots> = squeeze (map dash (c # cs))"
      using False by (simp add: dash_def)
    finally show ?thesis .
  qed
qed

lemma Trim_dash: "Trim s ''-'' = strip_dashes s"
  by (simp add: Trim_def TrimLeft_def TrimRight_def strip_dashes_def)

lemma slugify_slug_spec: "slugify v = slug_spec v"
  by (simp add: slugify_def slug_spec_def ReplaceAllString_squeeze Trim_dash)

subsection \<open>The supervisor and the loop of \<open>refreshCameras\<close>\<close>

lemma ensure_fields:
  "ensurePublisherLocked st cam a = (cam', a') \<Longrightarrow>
     cfg a' = cfg a \<and> hostname a' = hostname a \<and> cameras a' = cameras a \<and> state a' = state a
     \<and> signals a' = signals a \<and> disk a' = disk a"
  by (auto simp: ensurePublisherLocked_def split: if_splits start_result.splits)

lemma ensure_camera:
  "ensurePublisherLocked st cam a = (cam', a') \<Longrightarrow>
     cam' = cam \<or> cam' = cam\<lparr>Publishing := True\<rparr>"
  by (auto simp: ensurePublisherLocked_def split: if_splits start_result.splits)

lemma stop_fields:
  "cfg (stopPublisherLocked uid a) = cfg a"
  "hostname (stopPublisherLocked uid a) = hostname a"
  "state (stopPublisherLocked uid a) = state a"
  "procs (stopPublisherLocked uid a) = procs a"
  "disk (stopPublisherLocked uid a) = disk a"
  "logged (stopPublisherLocked uid a) = logged a"
  by (simp_all add: stopPublisherLocked_def split: option.splits)

lemma resolve_enabled_lookup:
  "resolve_enabled st uid = Inr (en, st') \<Longrightarrow>
     gm_lookup st' k =
       (if k = uid \<and> gm_lookup st uid = None then Some True else gm_lookup st k)
     \<and> gm_lookup st' uid = Some en"
  by (cases st) (auto simp: resolve_enabled_def update_conv' split: option.splits)

lemma refresh_device_cases:
  assumes "refresh_device e hs idx d nxt a = Inr (nxt', a')"
  obtains en st cam where
    "resolve_enabled (state a) (device_uid (hostname a) (dev_Node d)) = Inr (en, st)"
    "en" 
    "ensurePublisherLocked (start e) (new_camera (a\<lparr>state := st\<rparr>) hs idx d True) (a\<lparr>state := st\<rparr>) = (cam, a')"
    "nxt' = AList.update (device_uid (hostname a) (dev_Node d)) cam nxt"
  | st where
    "resolve_enabled (state a) (device_uid (hostname a) (dev_Node d)) = Inr (False, st)"
    "a' = stopPublisherLocked (device_uid (hostname a) (dev_Node d)) (a\<lparr>state := st\<rparr>)"
    "nxt' = AList.update (device_uid (hostname a) (dev_Node d)) (new_camera (a\<lparr>state := st\<rparr>) hs idx d False) nxt"
  using assms unfolding refresh_device_def Let_def
  by (auto split: sum.splits prod.splits if_splits)

lemma new_camera_simps:
  "DeviceUID (new_camera a hs idx d en) = device_uid (hostname a) (dev_Node d)"
  "Name (new_camera a hs idx d en) = camera_name idx d"
  "Node (new_camera a hs idx d en) = dev_Node d"
  "StreamPath (new_camera a hs idx d en) = stream_path hs (camera_name idx d) idx"
  "Enabled (new_camera a hs idx d en) = en"
  by (simp_all add: new_camera_def Let_def)

lemma refresh_device_result:
  assumes "refresh_device e hs idx d nxt a = Inr (nxt', a')"
  shows "hostname a' = hostname a" and "cfg a' = cfg a" and "disk a' = disk a"
    and "\<exists>cam. nxt' = AList.update (device_uid (hostname a) (dev_Node d)) cam nxt
            \<and> built_for a hs idx d cam
            \<and> gm_lookup (state a') (device_uid (hostname a) (dev_Node d)) = Some (Enabled cam)"
    and "gm_lookup (state a') k =
       (if k = device_uid (hostname a) (dev_Node d) \<and> gm_lookup (state a) k = None
        then Some True else gm_lookup (state a) k)"
proof -
  let ?uid = "device_uid (hostname a) (dev_Node d)"
  from assms show "hostname a' = hostname a"
    by (cases rule: refresh_device_cases) (auto dest: ensure_fields simp: stop_fields)
  from assms show "cfg a' = cfg a"
    by (cases rule: refresh_device_cases) (auto dest: ensure_fields simp: stop_fields)
  from assms show "disk a' = disk a"
    by (cases rule: refresh_device_cases) (auto dest: ensure_fields simp: stop_fields)
  from assms show "gm_lookup (state a') k =
       (if k = ?uid \<and> gm_lookup (state a) k = None then Some True else gm_lookup (state a) k)"
  proof (cases rule: refresh_device_cases)
    case (1 en st cam)
    from 1(3) have "state a' = st" by (auto dest: ensure_fields)
    with resolve_enabled_lookup[OF 1(1), of k] show ?thesis by auto
  next
    case (2 st)
    then have "state a' = st" by (simp add: stop_fields)
    with resolve_enabled_lookup[OF 2(1), of k] show ?thesis by auto
  qed
  from assms show "\<exists>cam. nxt' = AList.update ?uid cam nxt \<and> built_for a hs idx d cam
            \<and> gm_lookup (state a') ?uid = Some (Enabled cam)"
  proof (cases rule: refresh_device_cases)
    case (1 en st cam)
    from 1(3) have st: "state a' = st" by (auto dest: ensure_fields)
    from ensure_camera[OF 1(3)] have "built_for a hs idx d cam \<and> Enabled cam = True"
      by (auto simp: built_for_def new_camera_simps)
    with 1 st resolve_enabled_lookup[OF 1(1), of ?uid] show ?thesis by auto
  next
    case (2 st)
    then have st: "state a' = st" by (simp add: stop_fields)
    have "built_for a hs idx d (new_camera (a\<lparr>state := st\<rparr>) hs idx d False)"
      by (simp add: built_for_def new_camera_simps)
    with 2 st resolve_enabled_lookup[OF 2(1), of ?uid] show ?thesis
      by (auto simp: new_camera_simps)
  qed
qed

lemma refresh_devices_fields:
  "refresh_devices e hs idx ds nxt a = Inr (nxt', a') \<Longrightarrow>
     hostname a' = hostname a \<and> cfg a' = cfg a \<and> disk a' = disk a"
proof (induction ds arbitrary: idx nxt a)
  case Nil
  then show ?case by simp
next
  case (Cons d ds)
  from Cons.prems obtain n1 a1 where
    1: "refresh_device e hs idx d nxt a = Inr (n1, a1)" and
    2: "refresh_devices e hs (idx + 1) ds n1 a1 = Inr (nxt', a')"
    by (auto split: sum.splits)
  from Cons.IH[OF 2] refresh_device_result(1-3)[OF 1] show ?case by simp
qed

lemma refresh_devices_state:
  "refresh_devices e hs idx ds nxt a = Inr (nxt', a') \<Longrightarrow>
     gm_lookup (state a') k =
       (if k \<in> uids_of (hostname a) ds \<and> gm_lookup (state a) k = None
        then Some True else gm_lookup (state a) k)"
proof (induction ds arbitrary: idx nxt a)
  case Nil
  then show ?case by (simp add: uids_of_def)
next
  case (Cons d ds)
  from Cons.prems obtain n1 a1 where
    1: "refresh_device e hs idx d nxt a = Inr (n1, a1)" and
    2: "refresh_devices e hs (idx + 1) ds n1 a1 = Inr (nxt', a')"
    by (auto split: sum.splits)
  from Cons.IH[OF 2] refresh_device_result(1)[OF 1] refresh_device_result(5)[OF 1, of k]
  show ?case by (auto simp: uids_of_def)
qed

lemma refresh_devices_dom:
  "refresh_devices e hs idx ds nxt a = Inr (nxt', a') \<Longrightarrow>
     fst ` set nxt' = fst ` set nxt \<union> uids_of (hostname a) ds"
proof (induction ds arbitrary: idx nxt a)
  case Nil
  then show ?case by (simp add: uids_of_def)
next
  case (Cons d ds)
  from Cons.prems obtain n1 a1 where
    1: "refresh_device e hs idx d nxt a = Inr (n1, a1)" and
    2: "refresh_devices e hs (idx + 1) ds n1 a1 = Inr (nxt', a')"
    by (auto split: sum.splits)
  from refresh_device_result(4)[OF 1] obtain cam where
    "n1 = AList.update (device_uid (hostname a) (dev_Node d)) cam nxt" by blast
  then have "fst ` set n1 = insert (device_uid (hostname a) (dev_Node d)) (fst ` set nxt)"
    by (simp add: dom_update)
  with Cons.IH[OF 2] refresh_device_result(1)[OF 1] show ?case by (auto simp: uids_of_def)
qed

lemma refresh_devices_untouched:
  "refresh_devices e hs idx ds nxt a = Inr (nxt', a') \<Longrightarrow> k \<notin> uids_of (hostname a) ds \<Longrightarrow>
     map_of nxt' k = map_of nxt k"
proof (induction ds arbitrary: idx nxt a)
  case Nil
  then show ?case by simp
next
  case (Cons d ds)
  from Cons.prems obtain n1 a1 where
    1: "refresh_device e hs idx d nxt a = Inr (n1, a1)" and
    2: "refresh_devices e hs (idx + 1) ds n1 a1 = Inr (nxt', a')"
    by (auto split: sum.splits)
  from Cons.prems(2) have k: "k \<noteq> device_uid (hostname a) (dev_Node d)" "k \<notin> uids_of (hostname a1) ds"
    using refresh_device_result(1)[OF 1] by (auto simp: uids_of_def)
  from refresh_device_result(4)[OF 1] k(1) have "map_of n1 k = map_of nxt k"
    by (auto simp: update_conv')
  with Cons.IH[OF 2 k(2)] show ?case by simp
qed

lemma refresh_devices_named:
  "refresh_devices e hs idx ds nxt a = Inr (nxt', a') \<Longrightarrow> i < length ds \<Longrightarrow>
   device_uid (hostname a) (dev_Node (ds ! i)) \<notin> uids_of (hostname a) (drop (Suc i) ds) \<Longrightarrow>
     \<exists>cam. map_of nxt' (device_uid (hostname a) (dev_Node (ds ! i))) = Some cam
        \<and> built_for a hs (idx + i) (ds ! i) cam"
proof (induction ds arbitrary: idx nxt a i)
  case Nil
  then show ?case by simp
next
  case (Cons d ds)
  from Cons.prems obtain n1 a1 where
    1: "refresh_device e hs idx d nxt a = Inr (n1, a1)" and
    2: "refresh_devices e hs (idx + 1) ds n1 a1 = Inr (nxt', a')"
    by (auto split: sum.splits)
  note h = refresh_device_result(1)[OF 1]
  show ?case
  proof (cases i)
    case 0
    with Cons.prems(3) h have "device_uid (hostname a) (dev_Node d) \<notin> uids_of (hostname a1) ds"
      by simp
    from refresh_devices_untouched[OF 2 this] refresh_device_result(4)[OF 1] 0
    show ?thesis by (auto simp: update_conv')
  next
    case (Suc j)
    with Cons.prems h have "j < length ds"
      "device_uid (hostname a1) (dev_Node (ds ! j)) \<notin> uids_of (hostname a1) (drop (Suc j) ds)"
      by simp_all
    from Cons.IH[OF 2 this] Suc h show ?thesis by (simp add: built_for_def)
  qed
qed

lemma stop_vanished_fields:
  "cfg (stop_vanished nxt uids a) = cfg a \<and> hostname (stop_vanished nxt uids a) = hostname a \<and>
   state (stop_vanished nxt uids a) = state a \<and> procs (stop_vanished nxt uids a) = procs a \<and>
   disk (stop_vanished nxt uids a) = disk a \<and> logged (stop_vanished nxt uids a) = logged a"
  by (induction uids arbitrary: a) (simp_all add: stop_fields)

lemma refreshCameras_cases:
  assumes "refreshCameras discovered e a = Inr a'"
  obtains nxt a1 where
    "refresh_devices e (slugify (hostname a)) 0 (sort_key dev_Node discovered) [] a = Inr (nxt, a1)"
    "a' = (stop_vanished nxt (map fst (cameras a1)) a1)
            \<lparr>cameras := nxt,
             disk := snd (saveState (fs e) (StateFile (cfg a)) (state a1) (disk a))\<rparr>"
proof -
  from assms obtain nxt a1 where
    1: "refresh_devices e (slugify (hostname a)) 0 (sort_key dev_Node discovered) [] a = Inr (nxt, a1)"
    and 2: "a' = (let a2 = stop_vanished nxt (map fst (cameras a1)) a1; a3 = a2\<lparr>cameras := nxt\<rparr>
              in a3\<lparr>disk := snd (saveState (fs e) (StateFile (cfg a3)) (state a3) (disk a3))\<rparr>)"
    unfolding refreshCameras_def Let_def by (auto split: sum.splits prod.splits)
  from refresh_devices_fields[OF 1] 2 
  have "a' = (stop_vanished nxt (map fst (cameras a1)) a1)
            \<lparr>cameras := nxt,
             disk := snd (saveState (fs e) (StateFile (cfg a)) (state a1) (disk a))\<rparr>"
    by (simp add: Let_def stop_vanished_fields)
  with 1 show thesis by (rule that)
qed

lemma device_uid_inject: "device_uid h n = device_uid h n' \<longleftrightarrow> n = n'"
  by (simp add: device_uid_def)

lemma distinct_map_insort_key:
  "distinct (map f (insort_key f x xs)) \<longleftrightarrow> f x \<notin> f ` set xs \<and> distinct (map f xs)"
  by (induction xs) (auto simp: set_insort_key)

lemma distinct_map_sort_key:
  "distinct (map f (sort_key f xs)) \<longleftrightarrow> distinct (map f xs)"
  by (induction xs) (auto simp: sort_key_simps distinct_map_insort_key)

lemma distinct_later_uids:
  assumes "distinct (map dev_Node ds)" and "i < length ds"
  shows "device_uid h (dev_Node (ds ! i)) \<notin> uids_of h (drop (Suc i) ds)"
proof
  assume "device_uid h (dev_Node (ds ! i)) \<in> uids_of h (drop (Suc i) ds)"
  then obtain d where d: "d \<in> set (drop (Suc i) ds)" "dev_Node d = dev_Node (ds ! i)"
    by (auto simp: uids_of_def device_uid_inject)
  from d(1) obtain j where j: "j < length ds - Suc i" "d = ds ! (Suc i + j)"
    by (auto simp: in_set_conv_nth)
  with d(2) assms have "map dev_Node ds ! (Suc i + j) = map dev_Node ds ! i" by simp
  moreover from j(1) have "Suc i + j < length (map dev_Node ds)" "i < length (map dev_Node ds)"
    using assms(2) by simp_all
  ultimately show False
    using assms(1) by (auto simp: distinct_conv_nth)
qed

subsection \<open>Claim C8: identity and naming\<close>

text \<open>
  Claim C8. The slug computed by \<open>slugify\<close> is the slug of the specification: the
  string in lower case, every run of characters outside \<open>[a-z0-9]\<close> collapsed to one
  \<open>-\<close>, and the \<open>-\<close> at both ends trimmed. When no two discovered devices share a
  node, a reconciliation cycle leaves in the table, for the device at position \<open>i\<close>
  (from 0) of the list sorted by node, a camera whose name is the device's name, or
  \<open>Camera <i+1>\<close> if that is empty, and whose stream path is
  \<open><hostSlug>-<nameSlug>-<i>\<close>. On host \<open>cam-1\<close>, the single device with empty name
  and node \<open>/dev/video0\<close> gives the table one camera, named \<open>Camera 1\<close>, with stream
  path \<open>cam-1-camera-1-0\<close>.
\<close>

theorem C8_identity_and_naming:
  "slugify v = slug_spec v \<and>
   (distinct (map dev_Node discovered) \<and> refreshCameras discovered e a = Inr a'
      \<and> i < length discovered \<longrightarrow>
      (\<exists>cam. map_of (cameras a')
                (device_uid (hostname a) (dev_Node (sort_key dev_Node discovered ! i))) = Some cam
         \<and> Name cam =
             (if dev_Name (sort_key dev_Node discovered ! i) = []
              then ''Camera '' @ itoa (i + 1)
              else dev_Name (sort_key dev_Node discovered ! i))
         \<and> StreamPath cam =
             slugify (hostname a) @ ''-'' @ slugify (Name cam) @ ''-'' @ itoa i)) \<and>
   (hostname b = ''cam-1''
      \<and> refreshCameras [\<lparr>dev_Name = [], dev_Node = ''/dev/video0''\<rparr>] e b = Inr b' \<longrightarrow>
      (\<exists>cam. cameras b' = [(''cam-1:/dev/video0'', cam)]
         \<and> Name cam = ''Camera 1'' \<and> StreamPath cam = ''cam-1-camera-1-0''))"
proof (intro conjI impI)
  show "slugify v = slug_spec v" by (rule slugify_slug_spec)
next
  assume h: "distinct (map dev_Node discovered) \<and> refreshCameras discovered e a = Inr a'
      \<and> i < length discovered"
  let ?ds = "sort_key dev_Node discovered"
  from h obtain nxt a1 where
    1: "refresh_devices e (slugify (hostname a)) 0 ?ds [] a = Inr (nxt, a1)" and
    2: "cameras a' = nxt"
    by (auto elim!: refreshCameras_cases)
  from h have "distinct (map dev_Node ?ds)" "i < length ?ds"
    by (simp_all add: distinct_map_sort_key)
  from refresh_devices_named[OF 1 this(2) distinct_later_uids[OF this]] 2
  show "\<exists>cam. map_of (cameras a') (device_uid (hostname a) (dev_Node (?ds ! i))) = Some cam
         \<and> Name cam = (if dev_Name (?ds ! i) = [] then ''Camera '' @ itoa (i + 1)
              else dev_Name (?ds ! i))
         \<and> StreamPath cam = slugify (hostname a) @ ''-'' @ slugify (Name cam) @ ''-'' @ itoa i"
    by (auto simp: built_for_def camera_name_def stream_path_def)
next
  let ?d = "\<lparr>dev_Name = [], dev_Node = ''/dev/video0''\<rparr>"
  assume h: "hostname b = ''cam-1'' \<and> refreshCameras [?d] e b = Inr b'"
  then obtain nxt a1 where
    1: "refresh_devices e (slugify ''cam-1'') 0 [?d] [] b = Inr (nxt, a1)" and
    2: "cameras b' = nxt"
    by (auto elim!: refreshCameras_cases)
  from 1 obtain n1 where 3: "refresh_device e (slugify ''cam-1'') 0 ?d [] b = Inr (nxt, a1)"
    by (auto split: sum.splits)
  have s1: "slugify ''cam-1'' = ''cam-1''" by code_simp
  have s2: "slugify ''Camera 1'' = ''camera-1''" by code_simp
  have s3: "itoa (Suc 0) = ''1''" "itoa 0 = ''0''" by (simp_all add: itoa.simps digit_char_def)
  from refresh_device_result(4)[OF 3] h 2 show "\<exists>cam. cameras b' = [(''cam-1:/dev/video0'', cam)]
         \<and> Name cam = ''Camera 1'' \<and> StreamPath cam = ''cam-1-camera-1-0''"
    by (auto simp: built_for_def camera_name_def stream_path_def device_uid_def s1 s2 s3)
qed

text \<open>The hypotheses of C8 hold for the agent that starts on host \<open>cam-1\<close> with no
  state file and discovers that one device.\<close>

theorem C8_identity_and_naming_witness:
  "\<exists>a'. refreshCameras [d0] ok (new_agent c0 ''cam-1'' Map.empty) = Inr a'
     \<and> hostname (new_agent c0 ''cam-1'' Map.empty) = ''cam-1''
     \<and> distinct (map dev_Node [d0]) \<and> (0::nat) < length [d0]
     \<and> (\<exists>cam. map_of (cameras a') ''cam-1:/dev/video0'' = Some cam
           \<and> Name cam = ''Camera 1'' \<and> StreamPath cam = ''cam-1-camera-1-0'')"
proof -
  let ?a = "new_agent c0 ''cam-1'' Map.empty"
  obtain a' where r: "refreshCameras [d0] ok ?a = Inr a'"
    by (simp add: refreshCameras_def refresh_device_def resolve_enabled_def new_agent_def
        loadState_def ensurePublisherLocked_def ok_def Let_def)
  have h: "hostname ?a = ''cam-1''" by (simp add: new_agent_def)
  have d: "distinct (map dev_Node [d0])" "(0::nat) < length [d0]" by simp_all
  from C8_identity_and_naming[of _ "[d0]" ok ?a a' 0 ?a a'] r h
  have "\<exists>cam. cameras a' = [(''cam-1:/dev/video0'', cam)]
         \<and> Name cam = ''Camera 1'' \<and> StreamPath cam = ''cam-1-camera-1-0''"
    unfolding d0_def by blast
  then have "\<exists>cam. map_of (cameras a') ''cam-1:/dev/video0'' = Some cam
           \<and> Name cam = ''Camera 1'' \<and> StreamPath cam = ''cam-1-camera-1-0''"
    by auto
  with r h d show ?thesis by blast
qed

subsection \<open>Schedules\<close>

lemma run_reachable: "reachable a \<Longrightarrow> run evs a = Inr a' \<Longrightarrow> reachable a'"
proof (induction evs arbitrary: a)
  case Nil
  then show ?case by simp
next
  case (Cons ev evs)
  then show ?case
    by (auto split: sum.splits intro: reachable_step)
qed

lemma toggle_trace_run:
  "map_sum id (\<lambda>a. (map_of (cameras a) u0 \<noteq> None, live_procs a u0, map_of (publishers a) u0))
     (run toggle_trace (new_agent c0 ''cam-1'' Map.empty)) = Inr (True, [1, 2], Some 2)"
  by code_simp

subsection \<open>Claim C1: one Publisher per device\<close>

text \<open>
  Claim C1 says that a device never has two live encoder processes, in particular not
  after a camera is disabled and enabled again. The agent can reach a state that has them:
  after \<open>toggle_trace\<close> the camera \<open>u0\<close> has two encoder processes, 1 and 2, that are
  both running and were never interrupted, and only process 2 is in the live set. The
  goroutine of the interrupted process 0 deleted the entry of its successor 1 (line 253
  deletes by \<open>deviceUID\<close>, whichever process the entry holds) and then started
  process 2.
\<close>

theorem C1_two_live_encoders:
  "\<exists>a. reachable a \<and> map_of (cameras a) u0 \<noteq> None \<and> live_procs a u0 = [1, 2]
      \<and> map_of (publishers a) u0 = Some 2"
proof -
  from toggle_trace_run obtain a where
    r: "run toggle_trace (new_agent c0 ''cam-1'' Map.empty) = Inr a" and
    p: "map_of (cameras a) u0 \<noteq> None" "live_procs a u0 = [1, 2]" "map_of (publishers a) u0 = Some 2"
    by (cases "run toggle_trace (new_agent c0 ''cam-1'' Map.empty)") auto
  from run_reachable[OF reachable_new r] p show ?thesis by blast
qed

subsection \<open>Claim C7: loading the state\<close>

lemma null_state_file_run:
  "loadState null_disk (StateFile c0) = NilMap \<and>
   map_sum id cameras (refreshCameras [d0] ok (new_agent c0 ''cam-1'' null_disk))
     = Inl NilMapAssignment"
  by code_simp

text \<open>
  Claim C7 says that \<open>load\<close> returns the empty mapping for every file that is not a
  JSON object of booleans, and that the devices discovered afterwards default to enabled.
  For the state file \<open>null\<close>, \<open>loadState\<close> returns the nil map, and the first
  reconciliation cycle that finds a device panics at line 170.
\<close>

theorem C7_null_state_file:
  "loadState null_disk (StateFile c0) = NilMap \<and>
   refreshCameras [d0] ok (new_agent c0 ''cam-1'' null_disk) = Inl NilMapAssignment"
  using null_state_file_run
  by (cases "refreshCameras [d0] ok (new_agent c0 ''cam-1'' null_disk)") auto

text \<open>An absent file and a file that \<open>json.Unmarshal\<close> rejects do give the empty map.\<close>

lemma loadState_absent: "dsk path = None \<Longrightarrow> loadState dsk path = GoMap []"
  by (simp add: loadState_def)

lemma loadState_unparsable:
  "dsk path = Some data \<Longrightarrow> Unmarshal data = None \<Longrightarrow> loadState dsk path = GoMap []"
  by (simp add: loadState_def)

lemma loadState_not_json: "dsk path = Some Malformed \<Longrightarrow> loadState dsk path = GoMap []"
  by (simp add: loadState_def)

subsection \<open>What the supervisor changes\<close>

lemma stop_publishers:
  "map_of (publishers (stopPublisherLocked u a)) uid =
     (if uid = u then None else map_of (publishers a) uid)"
  by (auto simp: stopPublisherLocked_def delete_conv' split: option.splits)

lemma stop_signals:
  "signals (stopPublisherLocked u a) =
     signals a @ (case map_of (publishers a) u of None \<Rightarrow> [] | Some pid \<Rightarrow> [pid])"
  by (simp add: stopPublisherLocked_def split: option.splits)

lemma stop_cameras:
  "map_of (cameras (stopPublisherLocked u a)) uid =
     (if uid = u \<and> map_of (publishers a) u \<noteq> None
      then map_option (\<lambda>cam. cam\<lparr>Publishing := False\<rparr>) (map_of (cameras a) u)
      else map_of (cameras a) uid)"
  by (auto simp: stopPublisherLocked_def update_conv' split: option.splits)

lemma stop_camera_keys: "map fst (cameras (stopPublisherLocked u a)) = map fst (cameras a)"
  by (auto simp: stopPublisherLocked_def update_keys split: option.splits dest: map_of_SomeD
      intro: rev_image_eqI)

lemma stop_camera_enabled:
  "map_option Enabled (map_of (cameras (stopPublisherLocked u a)) uid) =
     map_option Enabled (map_of (cameras a) uid)"
  by (cases "map_of (cameras a) u") (auto simp: stop_cameras)

lemma ensure_publishers:
  "ensurePublisherLocked st cam a = (cam', a') \<Longrightarrow> uid \<noteq> DeviceUID cam \<Longrightarrow>
     map_of (publishers a') uid = map_of (publishers a) uid"
  by (auto simp: ensurePublisherLocked_def update_conv' split: if_splits start_result.splits)

lemma ensure_enabled:
  "ensurePublisherLocked st cam a = (cam', a') \<Longrightarrow>
     Enabled cam' = Enabled cam \<and> DeviceUID cam' = DeviceUID cam"
  by (auto dest: ensure_camera)

lemma ensure_in_table_fields:
  "cfg (ensure_in_table st uid cam a) = cfg a"
  "hostname (ensure_in_table st uid cam a) = hostname a"
  "state (ensure_in_table st uid cam a) = state a"
  "signals (ensure_in_table st uid cam a) = signals a"
  "disk (ensure_in_table st uid cam a) = disk a"
  by (auto simp: ensure_in_table_def split: prod.splits dest: ensure_fields)

lemma ensure_in_table_cameras:
  "map_of (cameras a) uid = Some cam0 \<Longrightarrow> Enabled cam0 = Enabled cam \<Longrightarrow>
   map_option Enabled (map_of (cameras (ensure_in_table st uid cam a)) k) =
     map_option Enabled (map_of (cameras a) k)"
  by (auto simp: ensure_in_table_def update_conv' split: prod.splits dest: ensure_fields ensure_enabled)

lemma ensure_in_table_publishers:
  "DeviceUID cam = uid \<Longrightarrow> k \<noteq> uid \<Longrightarrow>
   map_of (publishers (ensure_in_table st uid cam a)) k = map_of (publishers a) k"
  by (auto simp: ensure_in_table_def split: prod.splits dest: ensure_publishers)

lemma stop_vanished_publishers:
  "map_of (publishers (stop_vanished nxt uids a)) uid =
     (if uid \<in> set uids \<and> map_of nxt uid = None then None else map_of (publishers a) uid)"
  by (induction uids arbitrary: a) (auto simp: stop_publishers)

lemma resolve_enabled_wf:
  "resolve_enabled st uid = Inr (en, st') \<Longrightarrow> gm_wf st \<Longrightarrow> gm_wf st'"
  by (cases st) (auto simp: resolve_enabled_def distinct_update split: option.splits)

subsection \<open>Invariants of the reconciliation cycle\<close>

lemma refresh_device_loop_pub:
  assumes r: "refresh_device e hs idx d nxt a = Inr (nxt', a')"
    and l: "loop_pub_enabled nxt a"
  shows "loop_pub_enabled nxt' a'"
  unfolding loop_pub_enabled_def
proof (intro allI impI)
  fix uid pid
  let ?u = "device_uid (hostname a) (dev_Node d)"
  assume p: "map_of (publishers a') uid = Some pid"
  from r show "case map_of nxt' uid of Some cam \<Rightarrow> Enabled cam
        | None \<Rightarrow> \<exists>cam. map_of (cameras a') uid = Some cam \<and> Enabled cam"
  proof (cases rule: refresh_device_cases)
    case (1 en st cam)
    from ensure_camera[OF 1(3)] have en: "Enabled cam" "DeviceUID cam = ?u"
      by (auto simp: new_camera_simps)
    show ?thesis
    proof (cases "uid = ?u")
      case True
      with 1(4) en show ?thesis by (simp add: update_conv')
    next
      case False
      with ensure_publishers[OF 1(3), of uid] p have "map_of (publishers a) uid = Some pid"
        by (simp add: new_camera_simps)
      with l have "case map_of nxt uid of Some cam \<Rightarrow> Enabled cam
          | None \<Rightarrow> \<exists>cam. map_of (cameras a) uid = Some cam \<and> Enabled cam"
        unfolding loop_pub_enabled_def by blast
      moreover from ensure_fields[OF 1(3)] have "cameras a' = cameras a" by simp
      moreover from False 1(4) have "map_of nxt' uid = map_of nxt uid" by (simp add: update_conv')
      ultimately show ?thesis by (simp split: option.splits)
    qed
  next
    case (2 st)
    from p 2(2) have ne: "uid \<noteq> ?u" and "map_of (publishers a) uid = Some pid"
      by (auto simp: stop_publishers split: if_splits)
    with l have "case map_of nxt uid of Some cam \<Rightarrow> Enabled cam
          | None \<Rightarrow> \<exists>cam. map_of (cameras a) uid = Some cam \<and> Enabled cam"
      unfolding loop_pub_enabled_def by blast
    moreover from ne 2(2) have "map_of (cameras a') uid = map_of (cameras a) uid"
      by (simp add: stop_cameras)
    moreover from ne 2(3) have "map_of nxt' uid = map_of nxt uid" by (simp add: update_conv')
    ultimately show ?thesis by (simp split: option.splits)
  qed
qed

lemma refresh_device_loop_cam:
  assumes r: "refresh_device e hs idx d nxt a = Inr (nxt', a')"
    and l: "loop_cam_state nxt a"
  shows "loop_cam_state nxt' a'"
  unfolding loop_cam_state_def
proof (intro allI impI)
  fix uid cam
  let ?u = "device_uid (hostname a) (dev_Node d)"
  assume c: "map_of nxt' uid = Some cam"
  from refresh_device_result(4)[OF r] obtain cam1 where
    n: "nxt' = AList.update ?u cam1 nxt" and s: "gm_lookup (state a') ?u = Some (Enabled cam1)"
    by blast
  show "gm_lookup (state a') uid = Some (Enabled cam)"
  proof (cases "uid = ?u")
    case True
    with n c s show ?thesis by (simp add: update_conv')
  next
    case False
    with n c have "map_of nxt uid = Some cam" by (simp add: update_conv')
    with l have "gm_lookup (state a) uid = Some (Enabled cam)"
      unfolding loop_cam_state_def by blast
    with refresh_device_result(5)[OF r, of uid] show ?thesis by simp
  qed
qed

lemma refresh_device_wf:
  assumes r: "refresh_device e hs idx d nxt a = Inr (nxt', a')" and w: "gm_wf (state a)"
  shows "gm_wf (state a')"
  using r
proof (cases rule: refresh_device_cases)
  case (1 en st cam)
  from ensure_fields[OF 1(3)] have "state a' = st" by simp
  with resolve_enabled_wf[OF 1(1) w] show ?thesis by simp
next
  case (2 st)
  then have "state a' = st" by (simp add: stop_fields)
  with resolve_enabled_wf[OF 2(1) w] show ?thesis by simp
qed

lemma refresh_device_keyed:
  assumes r: "refresh_device e hs idx d nxt a = Inr (nxt', a')" and k: "keyed_by_uid nxt"
  shows "keyed_by_uid nxt'"
proof -
  from refresh_device_result(4)[OF r] obtain cam where
    "nxt' = AList.update (device_uid (hostname a) (dev_Node d)) cam nxt"
    "DeviceUID cam = device_uid (hostname a) (dev_Node d)"
    by (auto simp: built_for_def)
  with k show ?thesis
    by (auto simp: keyed_by_uid_def update_conv' split: if_splits)
qed

lemma refresh_devices_keyed:
  "refresh_devices e hs idx ds nxt a = Inr (nxt', a') \<Longrightarrow> keyed_by_uid nxt \<Longrightarrow>
     keyed_by_uid nxt'"
proof (induction ds arbitrary: idx nxt a)
  case Nil
  then show ?case by simp
next
  case (Cons d ds)
  from Cons.prems(1) obtain n1 a1 where
    1: "refresh_device e hs idx d nxt a = Inr (n1, a1)" and
    2: "refresh_devices e hs (idx + 1) ds n1 a1 = Inr (nxt', a')"
    by (auto split: sum.splits)
  from Cons.IH[OF 2 refresh_device_keyed[OF 1 Cons.prems(2)]] show ?case .
qed

lemma refresh_devices_loop_inv:
  "refresh_devices e hs idx ds nxt a = Inr (nxt', a') \<Longrightarrow>
   loop_pub_enabled nxt a \<Longrightarrow> loop_cam_state nxt a \<Longrightarrow> gm_wf (state a) \<Longrightarrow>
     loop_pub_enabled nxt' a' \<and> loop_cam_state nxt' a' \<and> gm_wf (state a')"
proof (induction ds arbitrary: idx nxt a)
  case Nil
  then show ?case by simp
next
  case (Cons d ds)
  from Cons.prems(1) obtain n1 a1 where
    1: "refresh_device e hs idx d nxt a = Inr (n1, a1)" and
    2: "refresh_devices e hs (idx + 1) ds n1 a1 = Inr (nxt', a')"
    by (auto split: sum.splits)
  from Cons.IH[OF 2 refresh_device_loop_pub[OF 1 Cons.prems(2)]
      refresh_device_loop_cam[OF 1 Cons.prems(3)] refresh_device_wf[OF 1 Cons.prems(4)]]
  show ?case .
qed

lemma refresh_devices_camera_keys:
  "refresh_devices e hs idx ds nxt a = Inr (nxt', a') \<Longrightarrow>
     map fst (cameras a') = map fst (cameras a)"
proof (induction ds arbitrary: idx nxt a)
  case Nil
  then show ?case by simp
next
  case (Cons d ds)
  from Cons.prems(1) obtain n1 a1 where
    1: "refresh_device e hs idx d nxt a = Inr (n1, a1)" and
    2: "refresh_devices e hs (idx + 1) ds n1 a1 = Inr (nxt', a')"
    by (auto split: sum.splits)
  from 1 have "map fst (cameras a1) = map fst (cameras a)"
    by (cases rule: refresh_device_cases) (auto dest: ensure_fields simp: stop_camera_keys)
  with Cons.IH[OF 2] show ?case by simp
qed

lemma refreshCameras_inv:
  assumes r: "refreshCameras discovered e a = Inr a'" and i: "agent_inv a"
  shows "agent_inv a'"
proof -
  from r obtain nxt a1 where
    1: "refresh_devices e (slugify (hostname a)) 0 (sort_key dev_Node discovered) [] a = Inr (nxt, a1)"
    and 2: "a' = (stop_vanished nxt (map fst (cameras a1)) a1)
            \<lparr>cameras := nxt,
             disk := snd (saveState (fs e) (StateFile (cfg a)) (state a1) (disk a))\<rparr>"
    by (rule refreshCameras_cases)
  from i have "loop_pub_enabled [] a" "loop_cam_state [] a" "gm_wf (state a)"
    by (simp_all add: agent_inv_def inv_pub_enabled_def loop_pub_enabled_def loop_cam_state_def)
  from refresh_devices_loop_inv[OF 1 this] have
    l: "loop_pub_enabled nxt a1" "loop_cam_state nxt a1" "gm_wf (state a1)" by simp_all
  have st: "state a' = state a1" "cameras a' = nxt"
    using 2 by (simp_all add: stop_vanished_fields)
  have "inv_pub_enabled a'"
    unfolding inv_pub_enabled_def
  proof (intro allI impI)
    fix uid pid
    assume "map_of (publishers a') uid = Some pid"
    with 2 have p: "map_of (publishers a1) uid = Some pid"
      and v: "\<not> (uid \<in> set (map fst (cameras a1)) \<and> map_of nxt uid = None)"
      by (auto simp: stop_vanished_publishers split: if_splits)
    from l(1) p have c: "case map_of nxt uid of Some cam \<Rightarrow> Enabled cam
          | None \<Rightarrow> \<exists>cam. map_of (cameras a1) uid = Some cam \<and> Enabled cam"
      unfolding loop_pub_enabled_def by blast
    show "\<exists>cam. map_of (cameras a') uid = Some cam \<and> Enabled cam"
    proof (cases "map_of nxt uid")
      case None
      with c obtain cam where "map_of (cameras a1) uid = Some cam" by auto
      then have "uid \<in> set (map fst (cameras a1))"
        by (auto dest: map_of_SomeD intro: rev_image_eqI)
      with v None show ?thesis by simp
    next
      case (Some cam)
      with c st show ?thesis by simp
    qed
  qed
  moreover from l(2) st have "inv_cam_state a'"
    by (simp add: inv_cam_state_def loop_cam_state_def)
  moreover have "keyed_by_uid (cameras a')"
    using refresh_devices_keyed[OF 1] st by (simp add: keyed_by_uid_def)
  ultimately show ?thesis using l(3) st by (simp add: agent_inv_def)
qed

subsection \<open>The toggle request and the goroutine\<close>

lemma handleToggle_not_found:
  "req_method r = ''POST'' \<Longrightarrow> req_body r = Some (uid, en) \<Longrightarrow> map_of (cameras a) uid = None
     \<Longrightarrow> handleToggle e r a = Inr (NotFound, a)"
  by (simp add: handleToggle_def)

lemma handleToggle_known:
  "req_method r = ''POST'' \<Longrightarrow> req_body r = Some (uid, en) \<Longrightarrow>
   map_of (cameras a) uid = Some cam0 \<Longrightarrow>
     handleToggle e r a =
       (case gm_assign (state a) uid en of
          Inl err \<Rightarrow> Inl err
        | Inr st \<Rightarrow> Inr (StatusOK, toggled e uid en cam0 st a))"
  by (simp add: handleToggle_def toggled_def Let_def ensure_in_table_fields stop_fields
      split: sum.splits)

lemma handleToggle_Inr:
  assumes "handleToggle e r a = Inr (resp, a')"
  obtains "a' = a" "resp \<noteq> StatusOK"
  | uid en cam0 st where "req_method r = ''POST''" "req_body r = Some (uid, en)"
      "map_of (cameras a) uid = Some cam0" "gm_assign (state a) uid en = Inr st"
      "resp = StatusOK" "a' = toggled e uid en cam0 st a"
proof (cases "req_method r = ''POST''")
  case False
  with assms have "a' = a" "resp \<noteq> StatusOK" by (auto simp: handleToggle_def)
  then show thesis by (rule that(1))
next
  case post: True
  show thesis
  proof (cases "req_body r")
    case None
    with assms post have "a' = a" "resp \<noteq> StatusOK" by (auto simp: handleToggle_def)
    then show thesis by (rule that(1))
  next
    case (Some p)
    obtain uid en where p: "p = (uid, en)" by (cases p)
    show thesis
    proof (cases "map_of (cameras a) uid")
      case None
      from handleToggle_not_found[OF post Some[unfolded p] None, of e] assms
      have "a' = a" "resp \<noteq> StatusOK" by auto
      then show thesis by (rule that(1))
    next
      case (Some cam0)
      from handleToggle_known[OF post \<open>req_body r = Some p\<close>[unfolded p] Some, of e] assms
      obtain st where "gm_assign (state a) uid en = Inr st" "resp = StatusOK"
        "a' = toggled e uid en cam0 st a"
        by (auto split: sum.splits)
      with post \<open>req_body r = Some p\<close> p Some show thesis by (auto intro: that(2))
    qed
  qed
qed

lemma toggled_state: "state (toggled e uid en cam0 st a) = st"
  by (simp add: toggled_def Let_def ensure_in_table_fields stop_fields)

lemma enabled_of_ensure_in_table:
  "map_of (cameras a) uid = Some cam0 \<Longrightarrow> Enabled cam0 = Enabled cam \<Longrightarrow>
     enabled_of (ensure_in_table st uid cam a) k = enabled_of a k"
  by (simp add: enabled_of_def ensure_in_table_cameras)

lemma enabled_of_stop: "enabled_of (stopPublisherLocked u a) k = enabled_of a k"
  by (simp add: enabled_of_def stop_camera_enabled)

lemma toggled_enabled_of:
  "map_of (cameras a) uid = Some cam0 \<Longrightarrow>
     enabled_of (toggled e uid en cam0 st a) k = (if k = uid then Some en else enabled_of a k)"
proof -
  assume c: "map_of (cameras a) uid = Some cam0"
  let ?cam = "cam0\<lparr>Enabled := en\<rparr>"
  let ?a2 = "a\<lparr>cameras := AList.update uid ?cam (cameras a), state := st\<rparr>"
  have 1: "map_of (cameras ?a2) uid = Some ?cam" by (simp add: update_conv')
  have 2: "enabled_of ?a2 k = (if k = uid then Some en else enabled_of a k)"
    by (simp add: enabled_of_def update_conv')
  show ?thesis
  proof (cases en)
    case True
    have "enabled_of (ensure_in_table (start e) uid ?cam ?a2) k = enabled_of ?a2 k"
      by (rule enabled_of_ensure_in_table[OF 1]) simp
    with 2 True show ?thesis by (simp add: toggled_def Let_def enabled_of_def)
  next
    case False
    have "enabled_of (stopPublisherLocked uid ?a2) k = enabled_of ?a2 k"
      by (rule enabled_of_stop)
    with 2 False show ?thesis by (simp add: toggled_def Let_def enabled_of_def)
  qed
qed

lemma toggled_publishers:
  "DeviceUID cam0 = uid \<Longrightarrow> k \<noteq> uid \<Longrightarrow>
     map_of (publishers (toggled e uid en cam0 st a)) k = map_of (publishers a) k"
  by (simp add: toggled_def Let_def ensure_in_table_publishers stop_publishers)

lemma keyed_by_uid_update:
  "keyed_by_uid table \<Longrightarrow> DeviceUID cam = uid \<Longrightarrow> keyed_by_uid (AList.update uid cam table)"
  by (auto simp: keyed_by_uid_def update_conv' split: if_splits)

lemma stop_keyed: "keyed_by_uid (cameras a) \<Longrightarrow> keyed_by_uid (cameras (stopPublisherLocked u a))"
  by (auto simp: keyed_by_uid_def stop_cameras split: if_splits)

lemma ensure_in_table_keyed:
  "keyed_by_uid (cameras a) \<Longrightarrow> DeviceUID cam = uid \<Longrightarrow>
     keyed_by_uid (cameras (ensure_in_table st uid cam a))"
proof -
  assume k: "keyed_by_uid (cameras a)" and u: "DeviceUID cam = uid"
  obtain cam' a' where e: "ensurePublisherLocked st cam a = (cam', a')"
    by (cases "ensurePublisherLocked st cam a")
  from ensure_fields[OF e] ensure_enabled[OF e] k u
  have "keyed_by_uid (AList.update uid cam' (cameras a'))"
    by (simp add: keyed_by_uid_update)
  with e show ?thesis by (simp add: ensure_in_table_def)
qed

lemma toggled_keyed:
  "keyed_by_uid (cameras a) \<Longrightarrow> DeviceUID cam0 = uid \<Longrightarrow>
     keyed_by_uid (cameras (toggled e uid en cam0 st a))"
  by (simp add: toggled_def Let_def ensure_in_table_keyed stop_keyed keyed_by_uid_update)

lemma toggled_off_publishers:
  "map_of (publishers (toggled e uid False cam0 st a)) uid = None"
  by (simp add: toggled_def Let_def stop_publishers)

lemma inv_pub_enabled_alt:
  "inv_pub_enabled a \<longleftrightarrow>
     (\<forall>uid. map_of (publishers a) uid \<noteq> None \<longrightarrow> enabled_of a uid = Some True)"
  by (auto simp: inv_pub_enabled_def enabled_of_def)

lemma inv_cam_state_alt:
  "inv_cam_state a \<longleftrightarrow>
     (\<forall>uid. enabled_of a uid \<noteq> None \<longrightarrow> gm_lookup (state a) uid = enabled_of a uid)"
  by (auto simp: inv_cam_state_def enabled_of_def)

lemma gm_assign_lookup:
  "gm_assign st uid en = Inr st' \<Longrightarrow>
     gm_lookup st' k = (if k = uid then Some en else gm_lookup st k)"
  by (cases st) (auto simp: update_conv')

lemma gm_assign_wf: "gm_assign st uid en = Inr st' \<Longrightarrow> gm_wf st \<Longrightarrow> gm_wf st'"
  by (cases st) (auto simp: distinct_update)

lemma toggled_inv:
  assumes c: "map_of (cameras a) uid = Some cam0" and g: "gm_assign (state a) uid en = Inr st"
    and i: "agent_inv a"
  shows "agent_inv (toggled e uid en cam0 st a)"
proof -
  let ?a' = "toggled e uid en cam0 st a"
  note eo = toggled_enabled_of[OF c, of e en st]
  from i c have u: "DeviceUID cam0 = uid" by (auto simp: agent_inv_def keyed_by_uid_def)
  have "inv_pub_enabled ?a'"
    unfolding inv_pub_enabled_alt
  proof (intro allI impI)
    fix k
    assume p: "map_of (publishers ?a') k \<noteq> None"
    show "enabled_of ?a' k = Some True"
    proof (cases "k = uid")
      case True
      with p have "en" using toggled_off_publishers[of e uid cam0 st a] by (cases en) auto
      with True eo show ?thesis by simp
    next
      case False
      with p u have "map_of (publishers a) k \<noteq> None" by (simp add: toggled_publishers)
      with i have "enabled_of a k = Some True" by (simp add: agent_inv_def inv_pub_enabled_alt)
      with False eo show ?thesis by simp
    qed
  qed
  moreover have "inv_cam_state ?a'"
    unfolding inv_cam_state_alt
  proof (intro allI impI)
    fix k
    assume "enabled_of ?a' k \<noteq> None"
    with i show "gm_lookup (state ?a') k = enabled_of ?a' k"
      using gm_assign_lookup[OF g, of k] eo[of k]
      by (auto simp: toggled_state agent_inv_def inv_cam_state_alt split: if_splits)
  qed
  moreover from i have "gm_wf (state ?a')"
    by (simp add: toggled_state gm_assign_wf[OF g] agent_inv_def)
  moreover from i u have "keyed_by_uid (cameras ?a')"
    by (simp add: toggled_keyed agent_inv_def)
  ultimately show ?thesis by (simp add: agent_inv_def)
qed

lemma handleToggle_inv:
  "handleToggle e r a = Inr (resp, a') \<Longrightarrow> agent_inv a \<Longrightarrow> agent_inv a'"
  by (erule handleToggle_Inr) (auto intro: toggled_inv)

lemma proc_exit_inv: "agent_inv a \<Longrightarrow> agent_inv (proc_exit pid err a)"
  by (simp add: proc_exit_def agent_inv_def inv_pub_enabled_def inv_cam_state_def)

lemma watcher_exit_fields:
  "cameras (watcher_exit pid a) = cameras a"
  "state (watcher_exit pid a) = state a"
  "disk (watcher_exit pid a) = disk a"
  "signals (watcher_exit pid a) = signals a"
  "cfg (watcher_exit pid a) = cfg a"
  "hostname (watcher_exit pid a) = hostname a"
  by (simp_all add: watcher_exit_def Let_def)

lemma watcher_exit_publishers:
  "map_of (publishers (watcher_exit pid a)) k = None \<or>
   map_of (publishers (watcher_exit pid a)) k = map_of (publishers a) k"
  by (auto simp: watcher_exit_def Let_def delete_conv')

lemma watcher_exit_inv: "agent_inv a \<Longrightarrow> agent_inv (watcher_exit pid a)"
  unfolding agent_inv_def inv_pub_enabled_def inv_cam_state_def watcher_exit_fields
  using watcher_exit_publishers[of pid a] by (metis option.distinct(1))



lemma watcher_restart_alt:
  "watcher_restart st pid a =
     (if pid < length (procs a) \<and> p_watcher (procs a ! pid) = Sleeping
      then (case map_of (cameras a) (p_uid (procs a ! pid)) of
              None \<Rightarrow> finish_watcher pid a
            | Some cam \<Rightarrow>
                if Enabled cam
                then ensure_in_table st (p_uid (procs a ! pid)) cam (finish_watcher pid a)
                else finish_watcher pid a)
      else a)"
  by (auto simp: watcher_restart_def finish_watcher_def Let_def split: option.splits)

lemma finish_watcher_fields:
  "cameras (finish_watcher pid a) = cameras a"
  "publishers (finish_watcher pid a) = publishers a"
  "state (finish_watcher pid a) = state a"
  "disk (finish_watcher pid a) = disk a"
  "signals (finish_watcher pid a) = signals a"
  "logged (finish_watcher pid a) = logged a"
  by (simp_all add: finish_watcher_def)

lemma finish_watcher_inv: "agent_inv a \<Longrightarrow> agent_inv (finish_watcher pid a)"
  by (simp add: finish_watcher_def agent_inv_def inv_pub_enabled_def inv_cam_state_def)

lemma ensure_in_table_inv:
  assumes c: "map_of (cameras a) uid = Some cam" and en: "Enabled cam" and i: "agent_inv a"
  shows "agent_inv (ensure_in_table st uid cam a)"
proof -
  let ?a' = "ensure_in_table st uid cam a"
  from i c have u: "DeviceUID cam = uid" by (auto simp: agent_inv_def keyed_by_uid_def)
  have eo: "enabled_of ?a' k = enabled_of a k" for k
    by (rule enabled_of_ensure_in_table[OF c]) simp
  have "inv_pub_enabled ?a'"
    unfolding inv_pub_enabled_alt
  proof (intro allI impI)
    fix k
    assume p: "map_of (publishers ?a') k \<noteq> None"
    show "enabled_of ?a' k = Some True"
    proof (cases "k = uid")
      case True
      from c en have "enabled_of a uid = Some True" by (simp add: enabled_of_def)
      with True eo show ?thesis by simp
    next
      case False
      with p u have "map_of (publishers a) k \<noteq> None" by (simp add: ensure_in_table_publishers)
      with i show ?thesis by (simp add: eo agent_inv_def inv_pub_enabled_alt)
    qed
  qed
  moreover from i have "inv_cam_state ?a'"
    by (simp add: inv_cam_state_alt eo ensure_in_table_fields agent_inv_def)
  moreover from i u have "keyed_by_uid (cameras ?a')"
    by (simp add: ensure_in_table_keyed agent_inv_def)
  moreover from i have "gm_wf (state ?a')"
    by (simp add: ensure_in_table_fields agent_inv_def)
  ultimately show ?thesis by (simp add: agent_inv_def)
qed

lemma watcher_restart_inv: "agent_inv a \<Longrightarrow> agent_inv (watcher_restart st pid a)"
proof -
  assume i: "agent_inv a"
  let ?f = "finish_watcher pid a"
  let ?u = "p_uid (procs a ! pid)"
  from i have f: "agent_inv ?f" by (rule finish_watcher_inv)
  show ?thesis
  proof (cases "map_of (cameras a) ?u")
    case None
    with i f show ?thesis by (simp add: watcher_restart_alt)
  next
    case (Some cam)
    show ?thesis
    proof (cases "Enabled cam")
      case True
      from Some have "map_of (cameras ?f) ?u = Some cam" by (simp add: finish_watcher_fields)
      from ensure_in_table_inv[OF this True f, of st] i Some True
      show ?thesis by (simp add: watcher_restart_alt)
    next
      case False
      with Some i f show ?thesis by (simp add: watcher_restart_alt)
    qed
  qed
qed

subsection \<open>Every reachable state satisfies the invariant\<close>

lemma decode_members_wf:
  "decode_members ms m = Some m' \<Longrightarrow> distinct (map fst m) \<Longrightarrow> distinct (map fst m')"
  by (induction ms m rule: decode_members.induct) (auto simp: distinct_update)

lemma Unmarshal_wf: "Unmarshal data = Some st \<Longrightarrow> gm_wf st"
  by (cases data) (auto dest: decode_members_wf)

lemma loadState_wf: "gm_wf (loadState dsk path)"
  by (auto simp: loadState_def split: option.splits dest: Unmarshal_wf)

lemma new_agent_inv: "agent_inv (new_agent c host dsk)"
  by (simp add: new_agent_def agent_inv_def inv_pub_enabled_def inv_cam_state_def
      keyed_by_uid_def loadState_wf)

lemma step_inv: "step ev a = Inr a' \<Longrightarrow> agent_inv a \<Longrightarrow> agent_inv a'"
proof (cases ev)
  case (Refresh ds e)
  then show "step ev a = Inr a' \<Longrightarrow> agent_inv a \<Longrightarrow> agent_inv a'"
    by (auto intro: refreshCameras_inv)
next
  case (Toggle r e)
  then show "step ev a = Inr a' \<Longrightarrow> agent_inv a \<Longrightarrow> agent_inv a'"
    by (auto split: sum.splits intro: handleToggle_inv)
next
  case (ProcExit pid err)
  then show "step ev a = Inr a' \<Longrightarrow> agent_inv a \<Longrightarrow> agent_inv a'"
    by (auto intro: proc_exit_inv)
next
  case (WatcherExit pid)
  then show "step ev a = Inr a' \<Longrightarrow> agent_inv a \<Longrightarrow> agent_inv a'"
    by (auto intro: watcher_exit_inv)
next
  case (WatcherRestart pid st)
  then show "step ev a = Inr a' \<Longrightarrow> agent_inv a \<Longrightarrow> agent_inv a'"
    by (auto intro: watcher_restart_inv)
qed

lemma reachable_inv: "reachable a \<Longrightarrow> agent_inv a"
  by (induction rule: reachable.induct) (auto intro: new_agent_inv step_inv)

subsection \<open>Claim C2: restart after exit\<close>

lemma watcher_exit_alt:
  "pid < length (procs a) \<Longrightarrow> p_watcher (procs a ! pid) = Waiting \<Longrightarrow>
   p_status (procs a ! pid) = Exited err \<Longrightarrow>
     watcher_exit pid a =
       a\<lparr>publishers := AList.delete (p_uid (procs a ! pid)) (publishers a),
         logged := (if err then logged a @ [ExitedWithError (p_uid (procs a ! pid))] else logged a),
         procs := (procs a)[pid := (procs a ! pid)
                    \<lparr>p_watcher := (if enabled_of a (p_uid (procs a ! pid)) = Some True
                                   then Sleeping else Finished)\<rparr>]\<rparr>"
  by (auto simp: watcher_exit_def Let_def enabled_of_def split: option.splits)

lemma toggled_off_procs: "procs (toggled e uid False cam0 st a) = procs a"
  by (simp add: toggled_def Let_def stop_fields)

lemma ensure_in_table_started:
  "DeviceUID cam = uid \<Longrightarrow> map_of (publishers a) uid = None \<Longrightarrow> st uid = Started \<Longrightarrow>
     map_of (publishers (ensure_in_table st uid cam a)) uid = Some (length (procs a))
     \<and> procs (ensure_in_table st uid cam a) =
         procs a @ [\<lparr>p_uid = uid, p_cmd = FfmpegPath (cfg a) # ffmpeg_args cam,
                     p_status = Running, p_watcher = Waiting\<rparr>]
     \<and> signals (ensure_in_table st uid cam a) = signals a
     \<and> logged (ensure_in_table st uid cam a) = logged a"
  by (simp add: ensure_in_table_def ensurePublisherLocked_def update_conv')

lemma ensure_in_table_failed:
  "DeviceUID cam = uid \<Longrightarrow> map_of (publishers a) uid = None \<Longrightarrow> st uid \<noteq> Started \<Longrightarrow>
     publishers (ensure_in_table st uid cam a) = publishers a
     \<and> procs (ensure_in_table st uid cam a) = procs a
     \<and> signals (ensure_in_table st uid cam a) = signals a
     \<and> logged (ensure_in_table st uid cam a) \<noteq> logged a"
  by (cases "st uid") (simp_all add: ensure_in_table_def ensurePublisherLocked_def)

lemma ensure_in_table_present:
  "DeviceUID cam = uid \<Longrightarrow> map_of (publishers a) uid \<noteq> None \<Longrightarrow>
     publishers (ensure_in_table st uid cam a) = publishers a
     \<and> procs (ensure_in_table st uid cam a) = procs a
     \<and> signals (ensure_in_table st uid cam a) = signals a
     \<and> logged (ensure_in_table st uid cam a) = logged a"
  by (auto simp: ensure_in_table_def ensurePublisherLocked_def)

lemma finish_watcher_more:
  "cfg (finish_watcher pid a) = cfg a"
  "length (procs (finish_watcher pid a)) = length (procs a)"
  by (simp_all add: finish_watcher_def)

lemma reachable_keyed:
  "reachable a \<Longrightarrow> map_of (cameras a) uid = Some cam \<Longrightarrow> DeviceUID cam = uid"
  by (auto dest!: reachable_inv simp: agent_inv_def keyed_by_uid_def)

text \<open>
  Claim C2. Let the agent be in a reachable state in which process \<open>pid\<close> is the entry of
  the live set for its device \<open>uid\<close>, has ended, and its goroutine has not yet handled
  the end. Handling it removes the entry for \<open>uid\<close> from the live set, and the goroutine
  then always sleeps through the restart delay (the camera of a supervised process is
  enabled). In whatever state \<open>b\<close> the agent is when the sleep is over: if the table then
  holds an enabled camera for \<open>uid\<close>, the goroutine calls \<open>ensurePublisherLocked\<close> for
  that camera, which in a reachable state starts one new encoder for the camera and
  registers it under \<open>uid\<close> when the device has no entry and the encoder starts, registers
  and starts nothing but logs when the encoder does not start, and changes neither the live
  set nor the processes when the device has an entry already; if the table holds no
  camera for \<open>uid\<close> or a disabled one, the goroutine starts nothing, registers nothing and
  sends no signal. A toggle request that disables \<open>uid\<close> during the delay is answered with
  OK, and the goroutine afterwards starts nothing: the device has no entry in the live set
  and there are no more processes than before.
\<close>

theorem C2_restart_after_exit:
  assumes r: "reachable a"
    and pid: "pid < length (procs a)"
    and w: "p_watcher (procs a ! pid) = Waiting"
    and x: "p_status (procs a ! pid) = Exited err"
    and uid: "uid = p_uid (procs a ! pid)"
    and sup: "map_of (publishers a) uid = Some pid"
  shows "map_of (publishers (watcher_exit pid a)) uid = None
    \<and> p_watcher (procs (watcher_exit pid a) ! pid) = Sleeping
    \<and> (\<forall>b st. pid < length (procs b) \<and> p_watcher (procs b ! pid) = Sleeping
            \<and> p_uid (procs b ! pid) = uid \<longrightarrow>
          (enabled_of b uid = Some True \<longrightarrow>
             (\<exists>cam. map_of (cameras b) uid = Some cam
                \<and> watcher_restart st pid b = ensure_in_table st uid cam (finish_watcher pid b)
                \<and> (reachable b \<and> map_of (publishers b) uid = None \<and> st uid = Started \<longrightarrow>
                      map_of (publishers (watcher_restart st pid b)) uid = Some (length (procs b))
                      \<and> procs (watcher_restart st pid b) =
                          procs (finish_watcher pid b) @
                            [\<lparr>p_uid = uid, p_cmd = FfmpegPath (cfg b) # ffmpeg_args cam,
                              p_status = Running, p_watcher = Waiting\<rparr>])
                \<and> (reachable b \<and> map_of (publishers b) uid = None \<and> st uid \<noteq> Started \<longrightarrow>
                      publishers (watcher_restart st pid b) = publishers b
                      \<and> procs (watcher_restart st pid b) = procs (finish_watcher pid b)
                      \<and> logged (watcher_restart st pid b) \<noteq> logged b)
                \<and> (reachable b \<and> map_of (publishers b) uid \<noteq> None \<longrightarrow>
                      publishers (watcher_restart st pid b) = publishers b
                      \<and> procs (watcher_restart st pid b) = procs (finish_watcher pid b))))
          \<and> (enabled_of b uid \<noteq> Some True \<longrightarrow>
                watcher_restart st pid b = finish_watcher pid b
                \<and> publishers (watcher_restart st pid b) = publishers b
                \<and> length (procs (watcher_restart st pid b)) = length (procs b)
                \<and> signals (watcher_restart st pid b) = signals b))
    \<and> (\<forall>q e st. req_method q = ''POST'' \<and> req_body q = Some (uid, False) \<longrightarrow>
          (\<exists>c. handleToggle e q (watcher_exit pid a) = Inr (StatusOK, c)
             \<and> watcher_restart st pid c = finish_watcher pid c
             \<and> map_of (publishers (watcher_restart st pid c)) uid = None
             \<and> length (procs (watcher_restart st pid c)) = length (procs a)))"
proof (intro conjI allI impI)
  let ?b = "watcher_exit pid a"
  from r have i: "agent_inv a" by (rule reachable_inv)
  with sup have en: "enabled_of a uid = Some True"
    by (simp add: agent_inv_def inv_pub_enabled_alt)
  note alt = watcher_exit_alt[OF pid w x]
  show 1: "map_of (publishers ?b) uid = None"
    by (simp add: alt uid delete_conv')
  from en pid show 2: "p_watcher (procs ?b ! pid) = Sleeping"
    by (simp add: alt uid)
  {
    fix q e st
    assume q: "req_method q = ''POST'' \<and> req_body q = Some (uid, False)"
    from en obtain cam0 where c0: "map_of (cameras ?b) uid = Some cam0"
      by (auto simp: enabled_of_def watcher_exit_fields)
    from i have ib: "agent_inv ?b" by (rule watcher_exit_inv)
    with c0 have "gm_lookup (state ?b) uid \<noteq> None"
      by (auto simp: agent_inv_def inv_cam_state_def)
    then obtain s where s: "gm_assign (state ?b) uid False = Inr s"
      by (cases "state ?b") auto
    let ?c = "toggled e uid False cam0 s ?b"
    from q c0 s have t: "handleToggle e q ?b = Inr (StatusOK, ?c)"
      by (simp add: handleToggle_known[of q uid False])
    have "enabled_of ?c uid = Some False"
      by (simp add: toggled_enabled_of[OF c0])
    moreover from pid have lc: "pid < length (procs ?c)" "p_uid (procs ?c ! pid) = uid"
      "length (procs ?c) = length (procs a)"
      by (simp_all add: toggled_off_procs alt uid)
    moreover from 2 have "p_watcher (procs ?c ! pid) = Sleeping"
      by (simp add: toggled_off_procs)
    ultimately have f: "watcher_restart st pid ?c = finish_watcher pid ?c"
      by (auto simp: watcher_restart_alt enabled_of_def split: option.splits)
    have "map_of (publishers (finish_watcher pid ?c)) uid = None"
      by (simp add: finish_watcher_fields toggled_off_publishers)
    moreover from lc have "length (procs (finish_watcher pid ?c)) = length (procs a)"
      by (simp add: finish_watcher_more)
    ultimately have "\<exists>c. handleToggle e q ?b = Inr (StatusOK, c)
          \<and> watcher_restart st pid c = finish_watcher pid c
          \<and> map_of (publishers (watcher_restart st pid c)) uid = None
          \<and> length (procs (watcher_restart st pid c)) = length (procs a)"
      using t f by auto
  }
  then show "req_method q = ''POST'' \<and> req_body q = Some (uid, False) \<Longrightarrow>
        \<exists>c. handleToggle e q ?b = Inr (StatusOK, c)
          \<and> watcher_restart st pid c = finish_watcher pid c
          \<and> map_of (publishers (watcher_restart st pid c)) uid = None
          \<and> length (procs (watcher_restart st pid c)) = length (procs a)" for q e st
    by blast
next
  fix b :: Agent and st
  assume h: "pid < length (procs b) \<and> p_watcher (procs b ! pid) = Sleeping
            \<and> p_uid (procs b ! pid) = uid"
  assume e: "enabled_of b uid = Some True"
  then obtain cam where c: "map_of (cameras b) uid = Some cam" and ec: "Enabled cam"
    by (auto simp: enabled_of_def)
  with h have wr: "watcher_restart st pid b = ensure_in_table st uid cam (finish_watcher pid b)"
    by (simp add: watcher_restart_alt)
  have started: "map_of (publishers (watcher_restart st pid b)) uid = Some (length (procs b))
      \<and> procs (watcher_restart st pid b) =
          procs (finish_watcher pid b) @
            [\<lparr>p_uid = uid, p_cmd = FfmpegPath (cfg b) # ffmpeg_args cam,
              p_status = Running, p_watcher = Waiting\<rparr>]"
    if "reachable b \<and> map_of (publishers b) uid = None \<and> st uid = Started"
  proof -
    from that c have k: "DeviceUID cam = uid" by (auto intro: reachable_keyed)
    from that have "map_of (publishers (finish_watcher pid b)) uid = None" "st uid = Started"
      by (simp_all add: finish_watcher_fields)
    from ensure_in_table_started[where st = st and a = "finish_watcher pid b", OF k this] show ?thesis
      by (simp add: wr finish_watcher_more)
  qed
  have failed: "publishers (watcher_restart st pid b) = publishers b
      \<and> procs (watcher_restart st pid b) = procs (finish_watcher pid b)
      \<and> logged (watcher_restart st pid b) \<noteq> logged b"
    if "reachable b \<and> map_of (publishers b) uid = None \<and> st uid \<noteq> Started"
  proof -
    from that c have k: "DeviceUID cam = uid" by (auto intro: reachable_keyed)
    from that have "map_of (publishers (finish_watcher pid b)) uid = None" "st uid \<noteq> Started"
      by (simp_all add: finish_watcher_fields)
    from ensure_in_table_failed[where st = st and a = "finish_watcher pid b", OF k this] show ?thesis
      by (simp add: wr finish_watcher_fields)
  qed
  have present: "publishers (watcher_restart st pid b) = publishers b
      \<and> procs (watcher_restart st pid b) = procs (finish_watcher pid b)"
    if "reachable b \<and> map_of (publishers b) uid \<noteq> None"
  proof -
    from that c have k: "DeviceUID cam = uid" by (auto intro: reachable_keyed)
    from that have "map_of (publishers (finish_watcher pid b)) uid \<noteq> None"
      by (simp add: finish_watcher_fields)
    from ensure_in_table_present[where st = st and a = "finish_watcher pid b", OF k this] show ?thesis
      by (simp add: wr finish_watcher_fields)
  qed
  from c wr started failed present
  show "\<exists>cam. map_of (cameras b) uid = Some cam
      \<and> watcher_restart st pid b = ensure_in_table st uid cam (finish_watcher pid b)
      \<and> (reachable b \<and> map_of (publishers b) uid = None \<and> st uid = Started \<longrightarrow>
            map_of (publishers (watcher_restart st pid b)) uid = Some (length (procs b))
            \<and> procs (watcher_restart st pid b) =
                procs (finish_watcher pid b) @
                  [\<lparr>p_uid = uid, p_cmd = FfmpegPath (cfg b) # ffmpeg_args cam,
                    p_status = Running, p_watcher = Waiting\<rparr>])
      \<and> (reachable b \<and> map_of (publishers b) uid = None \<and> st uid \<noteq> Started \<longrightarrow>
            publishers (watcher_restart st pid b) = publishers b
            \<and> procs (watcher_restart st pid b) = procs (finish_watcher pid b)
            \<and> logged (watcher_restart st pid b) \<noteq> logged b)
      \<and> (reachable b \<and> map_of (publishers b) uid \<noteq> None \<longrightarrow>
            publishers (watcher_restart st pid b) = publishers b
            \<and> procs (watcher_restart st pid b) = procs (finish_watcher pid b))"
    by blast
next
  fix b :: Agent and st
  assume h: "pid < length (procs b) \<and> p_watcher (procs b ! pid) = Sleeping
            \<and> p_uid (procs b ! pid) = uid"
  assume "enabled_of b uid \<noteq> Some True"
  with h show f: "watcher_restart st pid b = finish_watcher pid b"
    by (auto simp: watcher_restart_alt enabled_of_def split: option.splits)
  then show "publishers (watcher_restart st pid b) = publishers b"
    "length (procs (watcher_restart st pid b)) = length (procs b)"
    "signals (watcher_restart st pid b) = signals b"
    by (simp_all add: finish_watcher_fields finish_watcher_more)
qed

lemma exit_trace_run:
  "map_sum id (\<lambda>a. (length (procs a), p_watcher (procs a ! 0), p_status (procs a ! 0),
                     p_uid (procs a ! 0), map_of (publishers a) u0))
     (run exit_trace agent0)
   = Inr (1, Waiting, Exited True, u0, Some 0)"
  by code_simp

lemma reachable_agent0: "reachable agent0"
  unfolding agent0_def by (rule reachable_new)

lemma exit_handled_run:
  "map_sum id (\<lambda>b. (length (procs b), p_uid (procs b ! 0), enabled_of b u0))
     (run (exit_trace @ [WatcherExit 0]) agent0) = Inr (1, u0, Some True)"
  by code_simp

lemma run_append:
  "run (evs @ evs') a = (case run evs a of Inl err \<Rightarrow> Inl err | Inr a' \<Rightarrow> run evs' a')"
  by (induction evs arbitrary: a) (auto split: sum.splits)

text \<open>
  The hypotheses of C2 hold after \<open>exit_trace\<close>, for process 0 of camera \<open>u0\<close>; when its
  goroutine has slept and the encoder starts, process 1 is the new entry for \<open>u0\<close> and is
  running.
\<close>

theorem C2_restart_after_exit_witness:
  "\<exists>a. reachable a \<and> 0 < length (procs a) \<and> p_watcher (procs a ! 0) = Waiting
      \<and> p_status (procs a ! 0) = Exited True \<and> u0 = p_uid (procs a ! 0)
      \<and> map_of (publishers a) u0 = Some 0
      \<and> map_of (publishers (watcher_exit 0 a)) u0 = None
      \<and> p_watcher (procs (watcher_exit 0 a) ! 0) = Sleeping
      \<and> reachable (watcher_exit 0 a) \<and> enabled_of (watcher_exit 0 a) u0 = Some True
      \<and> start ok u0 = Started
      \<and> map_of (publishers (watcher_restart (start ok) 0 (watcher_exit 0 a))) u0 = Some 1
      \<and> p_status (procs (watcher_restart (start ok) 0 (watcher_exit 0 a)) ! 1) = Running"
proof -
  from exit_trace_run obtain a where
    a: "run exit_trace agent0 = Inr a" and
    v: "(length (procs a), p_watcher (procs a ! 0), p_status (procs a ! 0),
         p_uid (procs a ! 0), map_of (publishers a) u0) = (1, Waiting, Exited True, u0, Some 0)"
    by (cases "run exit_trace agent0") simp_all
  from v have
    h: "0 < length (procs a)" "p_watcher (procs a ! 0) = Waiting"
       "p_status (procs a ! 0) = Exited True" "u0 = p_uid (procs a ! 0)"
       "map_of (publishers a) u0 = Some 0"
    by simp_all
  from run_reachable[OF reachable_agent0 a] have r: "reachable a" .
  let ?b = "watcher_exit 0 a"
  let ?c = "watcher_restart (start ok) 0 ?b"
  have rb: "reachable ?b" by (rule reachable_step[OF r, of "WatcherExit 0"]) simp
  from exit_handled_run a have
    vb: "(length (procs ?b), p_uid (procs ?b ! 0), enabled_of ?b u0) = (1, u0, Some True)"
    by (simp add: run_append)
  then have hb: "0 < length (procs ?b)" "p_uid (procs ?b ! 0) = u0" "enabled_of ?b u0 = Some True"
    "length (procs ?b) = 1"
    by simp_all
  have s: "start ok u0 = Started" by (simp add: ok_def)
  note t = C2_restart_after_exit[OF r h]
  from t have 1: "map_of (publishers ?b) u0 = None" and 2: "p_watcher (procs ?b ! 0) = Sleeping"
    by blast+
  from t hb 2 obtain cam where
    e: "reachable ?b \<and> map_of (publishers ?b) u0 = None \<and> start ok u0 = Started \<longrightarrow>
          map_of (publishers ?c) u0 = Some (length (procs ?b))
          \<and> procs ?c = procs (finish_watcher 0 ?b) @
               [\<lparr>p_uid = u0, p_cmd = FfmpegPath (cfg ?b) # ffmpeg_args cam,
                 p_status = Running, p_watcher = Waiting\<rparr>]"
    by blast
  with rb 1 s hb have 3: "map_of (publishers ?c) u0 = Some 1"
    "p_status (procs ?c ! 1) = Running"
    by (simp_all add: nth_append finish_watcher_more)
  from r h 1 2 rb hb(3) s 3 show ?thesis by blast
qed

subsection \<open>Claim C3: \<open>ensure\<close> and \<open>retire\<close> twice\<close>

lemma ensure_noop:
  "map_of (publishers a) (DeviceUID cam) \<noteq> None \<Longrightarrow> ensurePublisherLocked st cam a = (cam, a)"
  by (simp add: ensurePublisherLocked_def)

lemma ensure_started:
  "map_of (publishers a) (DeviceUID cam) = None \<Longrightarrow> st (DeviceUID cam) = Started \<Longrightarrow>
     ensurePublisherLocked st cam a = (cam', a') \<Longrightarrow>
     map_of (publishers a') (DeviceUID cam) = Some (length (procs a))
     \<and> length (procs a') = Suc (length (procs a))"
  by (auto simp: ensurePublisherLocked_def update_conv')

lemma ensure_failed:
  "map_of (publishers a) (DeviceUID cam) = None \<Longrightarrow> st (DeviceUID cam) \<noteq> Started \<Longrightarrow>
     ensurePublisherLocked st cam a = (cam', a') \<Longrightarrow>
     cam' = cam \<and> publishers a' = publishers a \<and> procs a' = procs a
     \<and> logged a' \<noteq> logged a"
  by (auto simp: ensurePublisherLocked_def split: start_result.splits)

lemma stop_noop: "map_of (publishers a) uid = None \<Longrightarrow> stopPublisherLocked uid a = a"
  by (simp add: stopPublisherLocked_def)

text \<open>
  Claim C3 as stated fails where the encoder cannot be started: two calls of
  \<open>ensurePublisherLocked\<close> in a row leave no Publisher for the camera, and the second
  call is not a no-op, it tries to start the encoder and logs the failure once more.
\<close>

theorem C3_idempotent_counterexample:
  "map_of (publishers (snd (ensurePublisherLocked ffmpeg_missing camera0
       (snd (ensurePublisherLocked ffmpeg_missing camera0 agent0))))) u0 = None
   \<and> logged (snd (ensurePublisherLocked ffmpeg_missing camera0
       (snd (ensurePublisherLocked ffmpeg_missing camera0 agent0))))
     \<noteq> logged (snd (ensurePublisherLocked ffmpeg_missing camera0 agent0))"
  by code_simp

text \<open>
  Claim C3, amended. If the device has a Publisher already, or the encoder starts,
  \<open>ensurePublisherLocked\<close> leaves the device exactly one entry in the live set and a
  second call, whatever the encoder would answer then, changes nothing. If the device has none
  and the encoder does not start, the call registers nothing, starts nothing and logs the
  failure. \<open>stopPublisherLocked\<close> for a device without a Publisher changes nothing.
\<close>

theorem C3_idempotent:
  "(map_of (publishers a) (DeviceUID cam) \<noteq> None \<or> st (DeviceUID cam) = Started \<longrightarrow>
      (\<exists>cam1 a1 pid. ensurePublisherLocked st cam a = (cam1, a1)
         \<and> map_of (publishers a1) (DeviceUID cam) = Some pid
         \<and> ensurePublisherLocked st' cam1 a1 = (cam1, a1)))
   \<and> (map_of (publishers a) (DeviceUID cam) = None \<and> st (DeviceUID cam) \<noteq> Started \<longrightarrow>
      (\<exists>a1. ensurePublisherLocked st cam a = (cam, a1)
         \<and> publishers a1 = publishers a \<and> procs a1 = procs a \<and> logged a1 \<noteq> logged a))
   \<and> (map_of (publishers a) uid = None \<longrightarrow> stopPublisherLocked uid a = a)"
proof (intro conjI impI)
  assume h: "map_of (publishers a) (DeviceUID cam) \<noteq> None \<or> st (DeviceUID cam) = Started"
  obtain cam1 a1 where e: "ensurePublisherLocked st cam a = (cam1, a1)"
    by (cases "ensurePublisherLocked st cam a")
  have "\<exists>pid. map_of (publishers a1) (DeviceUID cam) = Some pid"
  proof (cases "map_of (publishers a) (DeviceUID cam)")
    case None
    with h have "st (DeviceUID cam) = Started" by simp
    from ensure_started[OF None this e] show ?thesis by blast
  next
    case (Some pid)
    with e show ?thesis by (simp add: ensure_noop)
  qed
  then obtain pid where p: "map_of (publishers a1) (DeviceUID cam) = Some pid" ..
  from ensure_enabled[OF e] p have "ensurePublisherLocked st' cam1 a1 = (cam1, a1)"
    by (simp add: ensure_noop)
  with e p show "\<exists>cam1 a1 pid. ensurePublisherLocked st cam a = (cam1, a1)
         \<and> map_of (publishers a1) (DeviceUID cam) = Some pid
         \<and> ensurePublisherLocked st' cam1 a1 = (cam1, a1)"
    by blast
next
  assume h: "map_of (publishers a) (DeviceUID cam) = None \<and> st (DeviceUID cam) \<noteq> Started"
  obtain cam1 a1 where e: "ensurePublisherLocked st cam a = (cam1, a1)"
    by (cases "ensurePublisherLocked st cam a")
  from h ensure_failed[OF _ _ e] e
  show "\<exists>a1. ensurePublisherLocked st cam a = (cam, a1)
         \<and> publishers a1 = publishers a \<and> procs a1 = procs a \<and> logged a1 \<noteq> logged a"
    by auto
next
  assume "map_of (publishers a) uid = None"
  then show "stopPublisherLocked uid a = a" by (rule stop_noop)
qed

text \<open>Both cases of C3 occur for the freshly built agent and camera \<open>camera0\<close>.\<close>

theorem C3_idempotent_witness:
  "start ok (DeviceUID camera0) = Started
   \<and> map_of (publishers agent0) u0 = None
   \<and> (\<exists>cam1 a1 pid. ensurePublisherLocked (start ok) camera0 agent0 = (cam1, a1)
         \<and> map_of (publishers a1) (DeviceUID camera0) = Some pid
         \<and> ensurePublisherLocked (start ok) cam1 a1 = (cam1, a1))
   \<and> stopPublisherLocked u0 agent0 = agent0
   \<and> ffmpeg_missing (DeviceUID camera0) \<noteq> Started
   \<and> map_of (publishers agent0) (DeviceUID camera0) = None
   \<and> (\<exists>a1. ensurePublisherLocked ffmpeg_missing camera0 agent0 = (camera0, a1)
         \<and> publishers a1 = publishers agent0)"
proof -
  have 1: "start ok (DeviceUID camera0) = Started" by (simp add: ok_def)
  have 2: "map_of (publishers agent0) u0 = None" by (simp add: agent0_def new_agent_def)
  have 3: "ffmpeg_missing (DeviceUID camera0) \<noteq> Started" by (simp add: ffmpeg_missing_def)
  have 4: "map_of (publishers agent0) (DeviceUID camera0) = None"
    by (simp add: agent0_def new_agent_def)
  from C3_idempotent[of agent0 camera0 "start ok" "start ok" u0] 1 2
    C3_idempotent[of agent0 camera0 ffmpeg_missing ffmpeg_missing u0] 3 4
  show ?thesis by blast
qed

subsection \<open>Claim C5: the toggle request\<close>

lemma saveState_ok: "snd (saveState FsOk path st dsk) path = Some (MarshalIndent st)"
  by simp

lemma toggled_fields:
  "cfg (toggled e uid en cam st a) = cfg a"
  "hostname (toggled e uid en cam st a) = hostname a"
  "disk (toggled e uid en cam st a) = snd (saveState (fs e) (StateFile (cfg a)) st (disk a))"
  by (simp_all add: toggled_def Let_def ensure_in_table_fields stop_fields)

lemma toggled_on_started:
  assumes "DeviceUID cam0 = uid" "map_of (publishers a) uid = None" "start e uid = Started"
  shows "map_of (publishers (toggled e uid True cam0 st a)) uid = Some (length (procs a))
     \<and> procs (toggled e uid True cam0 st a) =
         procs a @ [\<lparr>p_uid = uid, p_cmd = FfmpegPath (cfg a) # ffmpeg_args cam0,
                     p_status = Running, p_watcher = Waiting\<rparr>]
     \<and> signals (toggled e uid True cam0 st a) = signals a"
  using ensure_in_table_started[where cam = "cam0\<lparr>Enabled := True\<rparr>" and uid = uid
      and st = "start e"
      and a = "a\<lparr>cameras := AList.update uid (cam0\<lparr>Enabled := True\<rparr>) (cameras a), state := st\<rparr>"]
    assms
  by (simp add: toggled_def Let_def ffmpeg_args_def)

lemma toggled_on_failed:
  assumes "DeviceUID cam0 = uid" "map_of (publishers a) uid = None" "start e uid \<noteq> Started"
  shows "publishers (toggled e uid True cam0 st a) = publishers a
     \<and> procs (toggled e uid True cam0 st a) = procs a
     \<and> signals (toggled e uid True cam0 st a) = signals a
     \<and> logged (toggled e uid True cam0 st a) \<noteq> logged a"
  using ensure_in_table_failed[where cam = "cam0\<lparr>Enabled := True\<rparr>" and uid = uid
      and st = "start e"
      and a = "a\<lparr>cameras := AList.update uid (cam0\<lparr>Enabled := True\<rparr>) (cameras a), state := st\<rparr>"]
    assms
  by (simp add: toggled_def Let_def)

lemma toggled_on_present:
  assumes "DeviceUID cam0 = uid" "map_of (publishers a) uid \<noteq> None"
  shows "publishers (toggled e uid True cam0 st a) = publishers a
     \<and> procs (toggled e uid True cam0 st a) = procs a
     \<and> signals (toggled e uid True cam0 st a) = signals a"
  using ensure_in_table_present[where cam = "cam0\<lparr>Enabled := True\<rparr>" and uid = uid
      and st = "start e"
      and a = "a\<lparr>cameras := AList.update uid (cam0\<lparr>Enabled := True\<rparr>) (cameras a), state := st\<rparr>"]
    assms
  by (simp add: toggled_def Let_def)

lemma toggled_off_signals:
  "signals (toggled e uid False cam0 st a) =
     signals a @ (case map_of (publishers a) uid of None \<Rightarrow> [] | Some pid \<Rightarrow> [pid])"
  by (simp add: toggled_def Let_def stop_signals)

text \<open>
  Claim C5. Take a toggle request: a POST whose body decodes to a \<open>deviceUID\<close> and a
  boolean. If the \<open>deviceUID\<close> is not a key of the camera table, the answer is Not-Found
  and the agent, with its table, state mapping, state file and live set, is unchanged. If
  it is a key (in a state the agent can reach), the answer is OK; afterwards the camera's
  enabled flag and the entry of the state mapping are the requested boolean, the state
  file holds the new mapping when the save succeeds, and the agent is the one obtained by
  setting the flag and the entry, then calling \<open>ensurePublisherLocked\<close> when enabling
  or \<open>stopPublisherLocked\<close> when disabling, then saving. The effect of the two calls:
  enabling a camera that has no entry in the live set starts one encoder for it (the
  \<open>ffmpeg\<close> command built for the camera) and registers it under the \<open>deviceUID\<close> when
  the encoder starts, and otherwise registers and starts nothing but logs the failure;
  enabling a camera that has an entry changes neither the live set nor the processes;
  disabling leaves no entry for the \<open>deviceUID\<close> and sends the interrupt to the process
  that was its entry, if there was one, and to no other. In every case the entries of the
  other devices are as before, and enabling sends no signal.
\<close>

theorem C5_toggle:
  assumes m: "req_method r = ''POST''" and b: "req_body r = Some (uid, en)"
  shows "(map_of (cameras a) uid = None \<longrightarrow> handleToggle e r a = Inr (NotFound, a))
    \<and> (reachable a \<longrightarrow>
        (\<forall>cam. map_of (cameras a) uid = Some cam \<longrightarrow>
           (\<exists>st a'. gm_assign (state a) uid en = Inr st
              \<and> handleToggle e r a = Inr (StatusOK, a')
              \<and> enabled_of a' uid = Some en
              \<and> gm_lookup (state a') uid = Some en
              \<and> (fs e = FsOk \<longrightarrow> disk a' (StateFile (cfg a')) = Some (MarshalIndent (state a')))
              \<and> a' = (let a2 = a\<lparr>cameras := AList.update uid (cam\<lparr>Enabled := en\<rparr>) (cameras a),
                                  state := st\<rparr>;
                           a3 = (if en then ensure_in_table (start e) uid (cam\<lparr>Enabled := en\<rparr>) a2
                                 else stopPublisherLocked uid a2)
                       in a3\<lparr>disk := snd (saveState (fs e) (StateFile (cfg a)) st (disk a))\<rparr>)
              \<and> (en \<and> map_of (publishers a) uid = None \<and> start e uid = Started \<longrightarrow>
                    map_of (publishers a') uid = Some (length (procs a))
                    \<and> procs a' = procs a @
                        [\<lparr>p_uid = uid, p_cmd = FfmpegPath (cfg a) # ffmpeg_args cam,
                          p_status = Running, p_watcher = Waiting\<rparr>]
                    \<and> signals a' = signals a)
              \<and> (en \<and> map_of (publishers a) uid = None \<and> start e uid \<noteq> Started \<longrightarrow>
                    publishers a' = publishers a \<and> procs a' = procs a
                    \<and> signals a' = signals a \<and> logged a' \<noteq> logged a)
              \<and> (en \<and> map_of (publishers a) uid \<noteq> None \<longrightarrow>
                    publishers a' = publishers a \<and> procs a' = procs a
                    \<and> signals a' = signals a)
              \<and> (\<not> en \<longrightarrow>
                    map_of (publishers a') uid = None \<and> procs a' = procs a
                    \<and> signals a' = signals a @
                        (case map_of (publishers a) uid of None \<Rightarrow> [] | Some pid \<Rightarrow> [pid]))
              \<and> (\<forall>k. k \<noteq> uid \<longrightarrow> map_of (publishers a') k = map_of (publishers a) k))))"
proof (intro conjI impI allI)
  assume "map_of (cameras a) uid = None"
  with m b show "handleToggle e r a = Inr (NotFound, a)" by (rule handleToggle_not_found)
next
  fix cam
  assume r: "reachable a" and c: "map_of (cameras a) uid = Some cam"
  from r have i: "agent_inv a" by (rule reachable_inv)
  from r c have k: "DeviceUID cam = uid" by (rule reachable_keyed)
  from i c have "gm_lookup (state a) uid \<noteq> None"
    by (auto simp: agent_inv_def inv_cam_state_def)
  then obtain st where g: "gm_assign (state a) uid en = Inr st"
    by (cases "state a") auto
  let ?a' = "toggled e uid en cam st a"
  from handleToggle_known[OF m b c, of e] g
  have t: "handleToggle e r a = Inr (StatusOK, ?a')" by simp
  have 1: "enabled_of ?a' uid = Some en" by (simp add: toggled_enabled_of[OF c])
  have 2: "gm_lookup (state ?a') uid = Some en"
    using gm_assign_lookup[OF g, of uid] by (simp add: toggled_state)
  have 3: "fs e = FsOk \<longrightarrow> disk ?a' (StateFile (cfg ?a')) = Some (MarshalIndent (state ?a'))"
    by (simp add: toggled_fields toggled_state)
  have 4: "?a' = (let a2 = a\<lparr>cameras := AList.update uid (cam\<lparr>Enabled := en\<rparr>) (cameras a),
                                  state := st\<rparr>;
                     a3 = (if en then ensure_in_table (start e) uid (cam\<lparr>Enabled := en\<rparr>) a2
                                 else stopPublisherLocked uid a2)
                 in a3\<lparr>disk := snd (saveState (fs e) (StateFile (cfg a)) st (disk a))\<rparr>)"
    by (simp add: toggled_def Let_def)
  have 5: "en \<and> map_of (publishers a) uid = None \<and> start e uid = Started \<longrightarrow>
        map_of (publishers ?a') uid = Some (length (procs a))
        \<and> procs ?a' = procs a @
            [\<lparr>p_uid = uid, p_cmd = FfmpegPath (cfg a) # ffmpeg_args cam,
              p_status = Running, p_watcher = Waiting\<rparr>]
        \<and> signals ?a' = signals a"
    using toggled_on_started[OF k, of a e st] by auto
  have 6: "en \<and> map_of (publishers a) uid = None \<and> start e uid \<noteq> Started \<longrightarrow>
        publishers ?a' = publishers a \<and> procs ?a' = procs a
        \<and> signals ?a' = signals a \<and> logged ?a' \<noteq> logged a"
    using toggled_on_failed[OF k, of a e st] by auto
  have 7: "en \<and> map_of (publishers a) uid \<noteq> None \<longrightarrow>
        publishers ?a' = publishers a \<and> procs ?a' = procs a \<and> signals ?a' = signals a"
    using toggled_on_present[OF k, of a e st] by auto
  have 8: "\<not> en \<longrightarrow>
        map_of (publishers ?a') uid = None \<and> procs ?a' = procs a
        \<and> signals ?a' = signals a @
            (case map_of (publishers a) uid of None \<Rightarrow> [] | Some pid \<Rightarrow> [pid])"
    by (auto simp: toggled_off_publishers toggled_off_procs toggled_off_signals)
  have 9: "\<forall>k. k \<noteq> uid \<longrightarrow> map_of (publishers ?a') k = map_of (publishers a) k"
    by (simp add: toggled_publishers[OF k])
  from g t 1 2 3 4 5 6 7 8 9
  show "\<exists>st a'. gm_assign (state a) uid en = Inr st
              \<and> handleToggle e r a = Inr (StatusOK, a')
              \<and> enabled_of a' uid = Some en
              \<and> gm_lookup (state a') uid = Some en
              \<and> (fs e = FsOk \<longrightarrow> disk a' (StateFile (cfg a')) = Some (MarshalIndent (state a')))
              \<and> a' = (let a2 = a\<lparr>cameras := AList.update uid (cam\<lparr>Enabled := en\<rparr>) (cameras a),
                                  state := st\<rparr>;
                           a3 = (if en then ensure_in_table (start e) uid (cam\<lparr>Enabled := en\<rparr>) a2
                                 else stopPublisherLocked uid a2)
                       in a3\<lparr>disk := snd (saveState (fs e) (StateFile (cfg a)) st (disk a))\<rparr>)
              \<and> (en \<and> map_of (publishers a) uid = None \<and> start e uid = Started \<longrightarrow>
                    map_of (publishers a') uid = Some (length (procs a))
                    \<and> procs a' = procs a @
                        [\<lparr>p_uid = uid, p_cmd = FfmpegPath (cfg a) # ffmpeg_args cam,
                          p_status = Running, p_watcher = Waiting\<rparr>]
                    \<and> signals a' = signals a)
              \<and> (en \<and> map_of (publishers a) uid = None \<and> start e uid \<noteq> Started \<longrightarrow>
                    publishers a' = publishers a \<and> procs a' = procs a
                    \<and> signals a' = signals a \<and> logged a' \<noteq> logged a)
              \<and> (en \<and> map_of (publishers a) uid \<noteq> None \<longrightarrow>
                    publishers a' = publishers a \<and> procs a' = procs a
                    \<and> signals a' = signals a)
              \<and> (\<not> en \<longrightarrow>
                    map_of (publishers a') uid = None \<and> procs a' = procs a
                    \<and> signals a' = signals a @
                        (case map_of (publishers a) uid of None \<Rightarrow> [] | Some pid \<Rightarrow> [pid]))
              \<and> (\<forall>k. k \<noteq> uid \<longrightarrow> map_of (publishers a') k = map_of (publishers a) k)"
    by blast
qed

lemma known_camera_run:
  "map_sum id (\<lambda>a. (map_option DeviceUID (map_of (cameras a) u0), map_of (publishers a) u0,
                     signals a))
     (run [Refresh [d0] ok] agent0) = Inr (Some u0, Some 0, [])"
  by code_simp

lemma disabled_camera_run:
  "map_sum id (\<lambda>a. (map_option DeviceUID (map_of (cameras a) u0), map_of (publishers a) u0,
                     length (procs a)))
     (run disable_trace agent0) = Inr (Some u0, None, 1)"
  by code_simp

lemma toggle_req_body:
  "req_body (toggle_req u0 False) = Some (u0, False)"
  "req_body (toggle_req u0 True) = Some (u0, True)"
  by code_simp+

text \<open>The cases of C5 occur: camera \<open>u0\<close> is unknown to the fresh agent; after the first
  reconciliation cycle it is known and process 0 is its encoder, and disabling it sends the
  interrupt to process 0 and leaves no entry; after that, enabling it starts process 1 and
  registers it.\<close>

theorem C5_toggle_witness:
  "req_method (toggle_req u0 False) = ''POST''
   \<and> req_body (toggle_req u0 False) = Some (u0, False)
   \<and> map_of (cameras agent0) u0 = None
   \<and> handleToggle ok (toggle_req u0 False) agent0 = Inr (NotFound, agent0)
   \<and> (\<exists>a cam a'. reachable a \<and> map_of (cameras a) u0 = Some cam
        \<and> map_of (publishers a) u0 = Some 0
        \<and> handleToggle ok (toggle_req u0 False) a = Inr (StatusOK, a')
        \<and> enabled_of a' u0 = Some False \<and> gm_lookup (state a') u0 = Some False
        \<and> map_of (publishers a') u0 = None \<and> signals a' = signals a @ [0])
   \<and> req_method (toggle_req u0 True) = ''POST''
   \<and> req_body (toggle_req u0 True) = Some (u0, True)
   \<and> start ok u0 = Started
   \<and> (\<exists>a cam a'. reachable a \<and> map_of (cameras a) u0 = Some cam
        \<and> map_of (publishers a) u0 = None
        \<and> handleToggle ok (toggle_req u0 True) a = Inr (StatusOK, a')
        \<and> enabled_of a' u0 = Some True
        \<and> map_of (publishers a') u0 = Some 1
        \<and> p_status (procs a' ! 1) = Running)"
proof -
  have m: "req_method (toggle_req u0 False) = ''POST''"
    and m': "req_method (toggle_req u0 True) = ''POST''"
    by (simp_all add: toggle_req_def)
  have b: "req_body (toggle_req u0 False) = Some (u0, False)"
    and b': "req_body (toggle_req u0 True) = Some (u0, True)"
    by (rule toggle_req_body)+
  have s: "start ok u0 = Started" by (simp add: ok_def)
  have n: "map_of (cameras agent0) u0 = None" by (simp add: agent0_def new_agent_def)
  from C5_toggle[OF m b, of agent0 ok, THEN conjunct1] n
  have 1: "handleToggle ok (toggle_req u0 False) agent0 = Inr (NotFound, agent0)" by simp
  from known_camera_run obtain a where
    a: "run [Refresh [d0] ok] agent0 = Inr a" and
    v: "(map_option DeviceUID (map_of (cameras a) u0), map_of (publishers a) u0, signals a)
          = (Some u0, Some 0, [])"
    by (cases "run [Refresh [d0] ok] agent0") simp_all
  from v obtain cam where c: "map_of (cameras a) u0 = Some cam" by auto
  from v have p: "map_of (publishers a) u0 = Some 0" by simp
  from run_reachable[OF reachable_agent0 a] have r: "reachable a" .
  from C5_toggle[OF m b, of a ok, THEN conjunct2, rule_format, OF r c] obtain a' where
    2: "handleToggle ok (toggle_req u0 False) a = Inr (StatusOK, a')"
       "enabled_of a' u0 = Some False" "gm_lookup (state a') u0 = Some False"
    and 3: "\<not> False \<longrightarrow> map_of (publishers a') u0 = None \<and> procs a' = procs a
        \<and> signals a' = signals a @
            (case map_of (publishers a) u0 of None \<Rightarrow> [] | Some pid \<Rightarrow> [pid])"
    by (elim exE conjE) (rule that, assumption+)
  from 3 p have 4: "map_of (publishers a') u0 = None" "signals a' = signals a @ [0]"
    by simp_all
  from r c p 2 4 have off: "\<exists>a cam a'. reachable a \<and> map_of (cameras a) u0 = Some cam
        \<and> map_of (publishers a) u0 = Some 0
        \<and> handleToggle ok (toggle_req u0 False) a = Inr (StatusOK, a')
        \<and> enabled_of a' u0 = Some False \<and> gm_lookup (state a') u0 = Some False
        \<and> map_of (publishers a') u0 = None \<and> signals a' = signals a @ [0]"
    by blast
  from disabled_camera_run obtain d where
    d: "run disable_trace agent0 = Inr d" and
    vd: "(map_option DeviceUID (map_of (cameras d) u0), map_of (publishers d) u0,
          length (procs d)) = (Some u0, None, 1)"
    by (cases "run disable_trace agent0") simp_all
  from vd obtain camd where cd: "map_of (cameras d) u0 = Some camd" by auto
  from vd have pd: "map_of (publishers d) u0 = None" "length (procs d) = 1" by simp_all
  from run_reachable[OF reachable_agent0 d] have rd: "reachable d" .
  from C5_toggle[OF m' b', of d ok, THEN conjunct2, rule_format, OF rd cd] obtain d' where
    5: "handleToggle ok (toggle_req u0 True) d = Inr (StatusOK, d')"
       "enabled_of d' u0 = Some True"
    and 6: "True \<and> map_of (publishers d) u0 = None \<and> start ok u0 = Started \<longrightarrow>
        map_of (publishers d') u0 = Some (length (procs d))
        \<and> procs d' = procs d @
            [\<lparr>p_uid = u0, p_cmd = FfmpegPath (cfg d) # ffmpeg_args camd,
              p_status = Running, p_watcher = Waiting\<rparr>]
        \<and> signals d' = signals d"
    by (elim exE conjE) (rule that, assumption+)
  from 6 pd s have 7: "map_of (publishers d') u0 = Some 1" "p_status (procs d' ! 1) = Running"
    by (simp_all add: nth_append)
  from rd cd pd 5 7 have on: "\<exists>a cam a'. reachable a \<and> map_of (cameras a) u0 = Some cam
        \<and> map_of (publishers a) u0 = None
        \<and> handleToggle ok (toggle_req u0 True) a = Inr (StatusOK, a')
        \<and> enabled_of a' u0 = Some True
        \<and> map_of (publishers a') u0 = Some 1
        \<and> p_status (procs a' ! 1) = Running"
    by blast
  from m b n 1 off m' b' s on show ?thesis by blast
qed

subsection \<open>Claim C9: saving is best effort\<close>

lemma refresh_device_fs:
  "refresh_device (e\<lparr>fs := f\<rparr>) hs idx d nxt a = refresh_device e hs idx d nxt a"
  by (auto simp: refresh_device_def Let_def split: sum.splits prod.splits)

lemma refresh_devices_fs:
  "refresh_devices (e\<lparr>fs := f\<rparr>) hs idx ds nxt a = refresh_devices e hs idx ds nxt a"
  by (induction ds arbitrary: idx nxt a) (simp_all add: refresh_device_fs split: sum.splits)

lemma refreshCameras_alt:
  "refreshCameras discovered e a =
     (case refresh_devices e (slugify (hostname a)) 0 (sort_key dev_Node discovered) [] a of
        Inl err \<Rightarrow> Inl err
      | Inr (nxt, a1) \<Rightarrow>
          Inr ((stop_vanished nxt (map fst (cameras a1)) a1)
                 \<lparr>cameras := nxt,
                  disk := snd (saveState (fs e) (StateFile (cfg a)) (state a1) (disk a))\<rparr>))"
proof (cases "refresh_devices e (slugify (hostname a)) 0 (sort_key dev_Node discovered) [] a")
  case (Inl err)
  then show ?thesis by (simp add: refreshCameras_def)
next
  case (Inr p)
  obtain nxt a1 where p: "p = (nxt, a1)" by (cases p)
  from refresh_devices_fields[OF Inr[unfolded p]] Inr p show ?thesis
    by (simp add: refreshCameras_def Let_def stop_vanished_fields)
qed

lemma refreshCameras_any_fs:
  "map_sum id (\<lambda>a'. a'\<lparr>disk := d\<rparr>) (refreshCameras discovered (e\<lparr>fs := f\<rparr>) a) =
   map_sum id (\<lambda>a'. a'\<lparr>disk := d\<rparr>) (refreshCameras discovered e a)"
  by (simp add: refreshCameras_alt refresh_devices_fs split: sum.splits)

lemma toggled_any_fs:
  "(toggled (e\<lparr>fs := f\<rparr>) uid en cam st a)\<lparr>disk := d\<rparr> = (toggled e uid en cam st a)\<lparr>disk := d\<rparr>"
  by (simp add: toggled_def Let_def)

lemma handleToggle_alt:
  "handleToggle e r a =
     (if req_method r \<noteq> ''POST'' then Inr (MethodNotAllowed, a)
      else case req_body r of
             None \<Rightarrow> Inr (BadRequest, a)
           | Some (uid, en) \<Rightarrow>
               (case map_of (cameras a) uid of
                  None \<Rightarrow> Inr (NotFound, a)
                | Some cam \<Rightarrow>
                    (case gm_assign (state a) uid en of
                       Inl err \<Rightarrow> Inl err
                     | Inr st \<Rightarrow> Inr (StatusOK, toggled e uid en cam st a))))"
  by (auto simp: handleToggle_def toggled_def Let_def ensure_in_table_fields stop_fields
      split: option.splits sum.splits)

lemma handleToggle_any_fs:
  "map_sum id (\<lambda>(resp, a'). (resp, a'\<lparr>disk := d\<rparr>)) (handleToggle (e\<lparr>fs := f\<rparr>) r a) =
   map_sum id (\<lambda>(resp, a'). (resp, a'\<lparr>disk := d\<rparr>)) (handleToggle e r a)"
  by (simp add: handleToggle_alt toggled_any_fs split: option.splits sum.splits)

lemma refreshCameras_saved:
  assumes "refreshCameras discovered e a = Inr a'" and "fs e = FsOk"
  shows "disk a' (StateFile (cfg a')) = Some (MarshalIndent (state a'))"
  using assms(1)
proof (cases rule: refreshCameras_cases)
  case (1 nxt a1)
  with assms(2) show ?thesis by (simp add: stop_vanished_fields refresh_devices_fields)
qed

lemma handleToggle_saved:
  assumes "handleToggle e r a = Inr (StatusOK, a')" and "fs e = FsOk"
  shows "disk a' (StateFile (cfg a')) = Some (MarshalIndent (state a'))"
  using assms(1)
proof (cases rule: handleToggle_Inr)
  case 1
  then show ?thesis by simp
next
  case (2 uid en cam st)
  with assms(2) show ?thesis by (simp add: toggled_fields toggled_state)
qed

text \<open>
  Claim C9 says that a failed save is logged. It is not: the two callers discard the error
  (\<open>_ = saveState(...)\<close>, lines 198 and 382). After \<open>unsaved_trace\<close>, whose second save
  fails, the state mapping holds the new value and nothing at all has been logged.
\<close>

theorem C9_save_failure_not_logged:
  "map_sum id state (run unsaved_trace agent0) = Inr (GoMap [(u0, False)])
   \<and> map_sum id logged (run unsaved_trace agent0) = Inr []
   \<and> fst (saveState (fs unwritable) (StateFile c0) (GoMap [(u0, False)]) Map.empty)"
  by code_simp

text \<open>
  Claim C9, amended. Whatever the file system does to the save, \<open>refreshCameras\<close> and
  \<open>handleToggle\<close> end in the same way (both panic or both return, with the same answer)
  and leave the same agent up to the disk: the same table, live set, state mapping,
  processes, signals and log, so a failed save is neither fatal nor rolled back nor logged.
  When the save succeeds, the state file holds the mapping as it is after the cycle or the
  toggle. The other critical sections do not change the mapping.
\<close>

theorem C9_save_best_effort:
  "map_sum id (\<lambda>a'. a'\<lparr>disk := d\<rparr>) (refreshCameras discovered (e\<lparr>fs := f\<rparr>) a) =
   map_sum id (\<lambda>a'. a'\<lparr>disk := d\<rparr>) (refreshCameras discovered (e\<lparr>fs := FsOk\<rparr>) a)
   \<and> map_sum id (\<lambda>(resp, a'). (resp, a'\<lparr>disk := d\<rparr>)) (handleToggle (e\<lparr>fs := f\<rparr>) r a) =
     map_sum id (\<lambda>(resp, a'). (resp, a'\<lparr>disk := d\<rparr>)) (handleToggle (e\<lparr>fs := FsOk\<rparr>) r a)
   \<and> (refreshCameras discovered e a = Inr a' \<and> fs e = FsOk \<longrightarrow>
        disk a' (StateFile (cfg a')) = Some (MarshalIndent (state a')))
   \<and> (handleToggle e r a = Inr (StatusOK, a') \<and> fs e = FsOk \<longrightarrow>
        disk a' (StateFile (cfg a')) = Some (MarshalIndent (state a')))
   \<and> state (proc_exit pid err a) = state a
   \<and> state (watcher_exit pid a) = state a
   \<and> state (watcher_restart st pid a) = state a"
proof (intro conjI impI)
  show "map_sum id (\<lambda>a'. a'\<lparr>disk := d\<rparr>) (refreshCameras discovered (e\<lparr>fs := f\<rparr>) a) =
   map_sum id (\<lambda>a'. a'\<lparr>disk := d\<rparr>) (refreshCameras discovered (e\<lparr>fs := FsOk\<rparr>) a)"
    by (simp only: refreshCameras_any_fs)
  show "map_sum id (\<lambda>(resp, a'). (resp, a'\<lparr>disk := d\<rparr>)) (handleToggle (e\<lparr>fs := f\<rparr>) r a) =
     map_sum id (\<lambda>(resp, a'). (resp, a'\<lparr>disk := d\<rparr>)) (handleToggle (e\<lparr>fs := FsOk\<rparr>) r a)"
    by (simp only: handleToggle_any_fs)
  show "state (proc_exit pid err a) = state a" by (simp add: proc_exit_def)
  show "state (watcher_exit pid a) = state a" by (simp add: watcher_exit_fields)
  show "state (watcher_restart st pid a) = state a"
    by (simp add: watcher_restart_alt ensure_in_table_fields finish_watcher_fields
        split: option.splits)
next
  assume "refreshCameras discovered e a = Inr a' \<and> fs e = FsOk"
  then show "disk a' (StateFile (cfg a')) = Some (MarshalIndent (state a'))"
    by (auto intro: refreshCameras_saved)
next
  assume "handleToggle e r a = Inr (StatusOK, a') \<and> fs e = FsOk"
  then show "disk a' (StateFile (cfg a')) = Some (MarshalIndent (state a'))"
    by (auto intro: handleToggle_saved)
qed

lemma saved_run:
  "map_sum id (\<lambda>a. disk a (StateFile (cfg a))) (refreshCameras [d0] ok agent0)
     = Inr (Some (DocObject [(u0, JBool True)]))"
  by code_simp

text \<open>The first cycle of the fresh agent saves successfully.\<close>

theorem C9_save_best_effort_witness:
  "\<exists>a'. refreshCameras [d0] ok agent0 = Inr a' \<and> fs ok = FsOk
      \<and> disk a' (StateFile (cfg a')) = Some (MarshalIndent (state a'))"
proof -
  from saved_run obtain a' where a: "refreshCameras [d0] ok agent0 = Inr a'"
    by (cases "refreshCameras [d0] ok agent0") simp_all
  have f: "fs ok = FsOk" by (simp add: ok_def)
  from C9_save_best_effort[where e = ok and a = agent0 and discovered = "[d0]" and a' = a'] a f
  show ?thesis by blast
qed

subsection \<open>Claim C4: a device that vanished\<close>

lemma stop_vanished_signals:
  "\<exists>sigs. signals (stop_vanished nxt uids a) = signals a @ sigs
      \<and> (\<forall>uid pid. uid \<in> set uids \<and> map_of nxt uid = None
            \<and> map_of (publishers a) uid = Some pid \<longrightarrow> pid \<in> set sigs)"
proof (induction uids arbitrary: a)
  case Nil
  show ?case by simp
next
  case (Cons u uids)
  let ?a' = "if map_of nxt u = None then stopPublisherLocked u a else a"
  from Cons.IH[of ?a'] obtain s1 where
    s1: "signals (stop_vanished nxt uids ?a') = signals ?a' @ s1"
    and m1: "\<And>uid pid. uid \<in> set uids \<Longrightarrow> map_of nxt uid = None
            \<Longrightarrow> map_of (publishers ?a') uid = Some pid \<Longrightarrow> pid \<in> set s1"
    by blast
  obtain s0 where s0: "signals ?a' = signals a @ s0"
    and m0: "\<And>pid. map_of nxt u = None \<Longrightarrow> map_of (publishers a) u = Some pid
               \<Longrightarrow> pid \<in> set s0"
    by (cases "map_of nxt u = None") (auto simp: stop_signals)
  have "\<forall>uid pid. uid \<in> set (u # uids) \<and> map_of nxt uid = None
            \<and> map_of (publishers a) uid = Some pid \<longrightarrow> pid \<in> set (s0 @ s1)"
  proof (intro allI impI)
    fix uid pid
    assume h: "uid \<in> set (u # uids) \<and> map_of nxt uid = None
            \<and> map_of (publishers a) uid = Some pid"
    show "pid \<in> set (s0 @ s1)"
    proof (cases "uid = u")
      case True
      with h m0 show ?thesis by simp
    next
      case False
      with h have "map_of (publishers ?a') uid = Some pid" by (simp add: stop_publishers)
      with h False m1[of uid pid] show ?thesis by simp
    qed
  qed
  moreover from s0 s1 have "signals (stop_vanished nxt (u # uids) a) = signals a @ (s0 @ s1)"
    by simp
  ultimately show ?case by blast
qed

lemma refresh_device_publishers:
  assumes "refresh_device e hs idx d nxt a = Inr (nxt', a')"
    and "k \<noteq> device_uid (hostname a) (dev_Node d)"
  shows "map_of (publishers a') k = map_of (publishers a) k"
  using assms(1)
proof (cases rule: refresh_device_cases)
  case (1 en st cam)
  from ensure_publishers[OF 1(3), of k] assms(2) show ?thesis by (simp add: new_camera_simps)
next
  case (2 st)
  with assms(2) show ?thesis by (simp add: stop_publishers)
qed

lemma refresh_devices_publishers:
  "refresh_devices e hs idx ds nxt a = Inr (nxt', a') \<Longrightarrow> k \<notin> uids_of (hostname a) ds \<Longrightarrow>
     map_of (publishers a') k = map_of (publishers a) k"
proof (induction ds arbitrary: idx nxt a)
  case Nil
  then show ?case by simp
next
  case (Cons d ds)
  from Cons.prems obtain n1 a1 where
    1: "refresh_device e hs idx d nxt a = Inr (n1, a1)" and
    2: "refresh_devices e hs (idx + 1) ds n1 a1 = Inr (nxt', a')"
    by (auto split: sum.splits)
  from Cons.prems(2) have k: "k \<noteq> device_uid (hostname a) (dev_Node d)" "k \<notin> uids_of (hostname a1) ds"
    using refresh_device_result(1)[OF 1] by (auto simp: uids_of_def)
  from Cons.IH[OF 2 k(2)] refresh_device_publishers[OF 1 k(1)] show ?case by simp
qed

lemma uids_of_sort: "uids_of h (sort_key f ds) = uids_of h ds"
  by (simp add: uids_of_def)

text \<open>
  Claim C4. If a reconciliation cycle returns, a \<open>deviceUID\<close> that was a key of the
  previous camera table and belongs to none of the discovered devices has no entry in the
  live set and none in the table afterwards, whatever its enabled flag was. The loop over
  the discovered devices (ending in the agent \<open>a1\<close>) leaves its entry alone; the
  interrupt to its process is among the signals sent after that loop.
\<close>

theorem C4_vanished_device_retired:
  assumes r: "refreshCameras discovered e a = Inr a'"
    and prev: "uid \<in> fst ` set (cameras a)"
    and gone: "uid \<notin> (\<lambda>d. device_uid (hostname a) (dev_Node d)) ` set discovered"
  shows "map_of (publishers a') uid = None
    \<and> map_of (cameras a') uid = None
    \<and> (\<exists>nxt a1 sigs.
          refresh_devices e (slugify (hostname a)) 0 (sort_key dev_Node discovered) [] a
            = Inr (nxt, a1)
          \<and> map_of (publishers a1) uid = map_of (publishers a) uid
          \<and> signals a' = signals a1 @ sigs
          \<and> (\<forall>pid. map_of (publishers a) uid = Some pid \<longrightarrow> pid \<in> set sigs))"
proof -
  let ?ds = "sort_key dev_Node discovered"
  from r obtain nxt a1 where
    1: "refresh_devices e (slugify (hostname a)) 0 ?ds [] a = Inr (nxt, a1)"
    and 2: "a' = (stop_vanished nxt (map fst (cameras a1)) a1)
            \<lparr>cameras := nxt,
             disk := snd (saveState (fs e) (StateFile (cfg a)) (state a1) (disk a))\<rparr>"
    by (rule refreshCameras_cases)
  from gone have g: "uid \<notin> uids_of (hostname a) ?ds" by (simp add: uids_of_sort uids_of_def)
  from refresh_devices_dom[OF 1] g have "uid \<notin> fst ` set nxt" by simp
  then have n: "map_of nxt uid = None" by (simp add: map_of_eq_None_iff)
  from refresh_devices_camera_keys[OF 1] prev have k: "uid \<in> set (map fst (cameras a1))"
    by simp
  from refresh_devices_publishers[OF 1 g] have p: "map_of (publishers a1) uid = map_of (publishers a) uid" .
  from 2 n k have "map_of (publishers a') uid = None"
    by (simp add: stop_vanished_publishers)
  moreover from 2 n have "map_of (cameras a') uid = None" by simp
  moreover from stop_vanished_signals[of nxt "map fst (cameras a1)" a1] obtain sigs where
    "signals (stop_vanished nxt (map fst (cameras a1)) a1) = signals a1 @ sigs"
    "\<And>u pid. u \<in> set (map fst (cameras a1)) \<Longrightarrow> map_of nxt u = None
         \<Longrightarrow> map_of (publishers a1) u = Some pid \<Longrightarrow> pid \<in> set sigs"
    by blast
  with 2 n k p have "signals a' = signals a1 @ sigs"
    "\<forall>pid. map_of (publishers a) uid = Some pid \<longrightarrow> pid \<in> set sigs"
    by auto
  ultimately show ?thesis using 1 p by blast
qed

lemma first_cycle_run:
  "map_sum id (\<lambda>a. (map fst (cameras a), map_of (publishers a) u0, enabled_of a u0,
                     gm_lookup (state a) u0))
     (run [Refresh [d0] ok] agent0) = Inr ([u0], Some 0, Some True, Some True)"
  by code_simp

lemma refreshCameras_no_devices: "\<exists>a'. refreshCameras [] e a = Inr a'"
  by (simp add: refreshCameras_def Let_def)

text \<open>The hypotheses of C4 hold when the device of the first cycle is gone in the
  second: its camera was enabled and process 0 was its Publisher.\<close>

theorem C4_vanished_device_retired_witness:
  "\<exists>a a'. refreshCameras [] ok a = Inr a'
     \<and> u0 \<in> fst ` set (cameras a)
     \<and> u0 \<notin> (\<lambda>d. device_uid (hostname a) (dev_Node d)) ` set []
     \<and> enabled_of a u0 = Some True
     \<and> map_of (publishers a) u0 = Some 0
     \<and> map_of (publishers a') u0 = None
     \<and> 0 \<in> set (signals a')"
proof -
  from first_cycle_run obtain a where
    v: "(map fst (cameras a), map_of (publishers a) u0, enabled_of a u0, gm_lookup (state a) u0)
          = ([u0], Some 0, Some True, Some True)"
    by (cases "run [Refresh [d0] ok] agent0") simp_all
  obtain a' where r: "refreshCameras [] ok a = Inr a'"
    using refreshCameras_no_devices by blast
  from v have k: "u0 \<in> fst ` set (cameras a)"
    by (metis fst_conv list.set_intros(1) list.set_map)
  have g: "u0 \<notin> (\<lambda>d. device_uid (hostname a) (dev_Node d)) ` set []" by simp
  from v have p: "map_of (publishers a) u0 = Some 0" "enabled_of a u0 = Some True" by simp_all
  from C4_vanished_device_retired[OF r k g] p have
    "map_of (publishers a') u0 = None" "0 \<in> set (signals a')"
    by auto
  with r k g p show ?thesis by blast
qed

subsection \<open>The state mapping and the flags after a cycle\<close>

lemma refresh_devices_loop_cam:
  "refresh_devices e hs idx ds nxt a = Inr (nxt', a') \<Longrightarrow> loop_cam_state nxt a \<Longrightarrow>
     loop_cam_state nxt' a'"
proof (induction ds arbitrary: idx nxt a)
  case Nil
  then show ?case by simp
next
  case (Cons d ds)
  from Cons.prems(1) obtain n1 a1 where
    1: "refresh_device e hs idx d nxt a = Inr (n1, a1)" and
    2: "refresh_devices e hs (idx + 1) ds n1 a1 = Inr (nxt', a')"
    by (auto split: sum.splits)
  from Cons.IH[OF 2 refresh_device_loop_cam[OF 1 Cons.prems(2)]] show ?case .
qed

lemma refreshCameras_state:
  assumes "refreshCameras discovered e a = Inr a'"
  shows "gm_lookup (state a') k =
       (if k \<in> uids_of (hostname a) discovered \<and> gm_lookup (state a) k = None
        then Some True else gm_lookup (state a) k)"
  using assms
proof (cases rule: refreshCameras_cases)
  case (1 nxt a1)
  from refresh_devices_state[OF 1(1), of k] 1(2) show ?thesis
    by (simp add: stop_vanished_fields uids_of_sort)
qed

lemma refreshCameras_fields:
  assumes "refreshCameras discovered e a = Inr a'"
  shows "hostname a' = hostname a" "cfg a' = cfg a"
  using assms
  by (cases rule: refreshCameras_cases; simp add: stop_vanished_fields refresh_devices_fields)+

lemma refreshCameras_enabled:
  assumes r: "refreshCameras discovered e a = Inr a'"
  shows "enabled_of a' uid =
     (if uid \<in> uids_of (hostname a) discovered then gm_lookup (state a') uid else None)"
  using r
proof (cases rule: refreshCameras_cases)
  case (1 nxt a1)
  have c: "cameras a' = nxt" and s: "state a' = state a1"
    using 1(2) by (simp_all add: stop_vanished_fields)
  have "loop_cam_state [] a" by (simp add: loop_cam_state_def)
  from refresh_devices_loop_cam[OF 1(1) this] have l: "loop_cam_state nxt a1" .
  from refresh_devices_dom[OF 1(1)] have d: "fst ` set nxt = uids_of (hostname a) discovered"
    by (simp add: uids_of_sort)
  show ?thesis
  proof (cases "map_of nxt uid")
    case None
    then have "uid \<notin> fst ` set nxt" by (simp add: map_of_eq_None_iff)
    with d None c show ?thesis by (simp add: enabled_of_def)
  next
    case (Some cam)
    then have "uid \<in> fst ` set nxt" by (metis map_of_eq_None_iff option.distinct(1))
    moreover from l Some have "gm_lookup (state a1) uid = Some (Enabled cam)"
      by (auto simp: loop_cam_state_def)
    ultimately show ?thesis using d Some c s by (simp add: enabled_of_def)
  qed
qed

subsection \<open>Claim C6: seeding and the round trip of the state file\<close>

lemma decode_members_bools:
  "decode_members (map (\<lambda>(k, v). (k, JBool v)) xs) m =
     Some (fold (\<lambda>(k, v). AList.update k v) xs m)"
  by (induction xs arbitrary: m) (auto)

lemma map_of_fold_update:
  "distinct (map fst xs) \<Longrightarrow>
     map_of (fold (\<lambda>(k, v). AList.update k v) xs m) k =
       (case map_of xs k of Some v \<Rightarrow> Some v | None \<Rightarrow> map_of m k)"
proof (induction xs arbitrary: m)
  case Nil
  show ?case by simp
next
  case (Cons x xs)
  obtain k0 v0 where x: "x = (k0, v0)" by (cases x)
  from Cons.prems x have d: "distinct (map fst xs)" and n: "map_of xs k0 = None"
    by (auto simp: map_of_eq_None_iff)
  from Cons.IH[OF d, of "AList.update k0 v0 m"] x n show ?case
    by (auto simp: update_conv' split: option.splits)
qed

lemma map_of_sort_key:
  assumes "distinct (map fst xs)"
  shows "map_of (sort_key fst xs) = map_of xs"
proof -
  from assms have "distinct (map fst (sort_key fst xs))" by (simp add: distinct_map_sort_key)
  with assms show ?thesis by (simp add: map_of_inject_set)
qed

lemma valid_keys_written_unchanged:
  "list_all (\<lambda>(k, v). coerce_utf8 k = k) xs \<Longrightarrow>
     map (\<lambda>(k, v). (coerce_utf8 k, JBool v)) xs = map (\<lambda>(k, v). (k, JBool v)) xs"
  by (induction xs) auto

lemma list_all_sort_key: "list_all P (sort_key f xs) = list_all P xs"
  by (simp add: list_all_iff)

lemma round_trip:
  assumes "gm_wf m" and "utf8_keys m"
  shows "\<exists>m'. Unmarshal (MarshalIndent m) = Some m' \<and> (\<forall>k. gm_lookup m' k = gm_lookup m k)
           \<and> (m' = NilMap \<longleftrightarrow> m = NilMap)"
proof (cases m)
  case NilMap
  then show ?thesis by simp
next
  case (GoMap al)
  with assms have d: "distinct (map fst al)" by simp
  then have ds: "distinct (map fst (sort_key fst al))" by (simp add: distinct_map_sort_key)
  from assms(2) GoMap have "list_all (\<lambda>(k, v). coerce_utf8 k = k) (sort_key fst al)"
    by (simp add: list_all_sort_key)
  then have w: "MarshalIndent m = DocObject (map (\<lambda>(k, v). (k, JBool v)) (sort_key fst al))"
    by (simp add: GoMap valid_keys_written_unchanged)
  let ?m' = "GoMap (fold (\<lambda>(k, v). AList.update k v) (sort_key fst al) [])"
  have "Unmarshal (MarshalIndent m) = Some ?m'"
    by (simp add: w decode_members_bools)
  moreover have "gm_lookup ?m' k = gm_lookup m k" for k
    by (simp add: GoMap map_of_fold_update[OF ds] map_of_sort_key[OF d] split: option.splits)
  ultimately show ?thesis using GoMap by auto
qed

lemma load_after_save:
  assumes "gm_wf m" and "utf8_keys m" and "dsk path = Some (MarshalIndent m)"
  shows "gm_lookup (loadState dsk path) k = gm_lookup m k"
    and "loadState dsk path = NilMap \<longleftrightarrow> m = NilMap"
  using round_trip[OF assms(1,2)] assms(3) by (auto simp: loadState_def)

text \<open>A cycle returns unless the state mapping is the nil map.\<close>

lemma resolve_enabled_total:
  "st \<noteq> NilMap \<Longrightarrow> \<exists>en st'. resolve_enabled st uid = Inr (en, st') \<and> st' \<noteq> NilMap"
  by (cases st) (auto simp: resolve_enabled_def split: option.splits)

lemma refresh_device_total:
  assumes "state a \<noteq> NilMap"
  shows "\<exists>nxt' a'. refresh_device e hs idx d nxt a = Inr (nxt', a') \<and> state a' \<noteq> NilMap"
proof -
  let ?u = "device_uid (hostname a) (dev_Node d)"
  from resolve_enabled_total[OF assms, of ?u] obtain en st where
    r: "resolve_enabled (state a) ?u = Inr (en, st)" and s: "st \<noteq> NilMap" by blast
  show ?thesis
  proof (cases en)
    case True
    obtain cam a2 where e: "ensurePublisherLocked (start e)
        (new_camera (a\<lparr>state := st\<rparr>) hs idx d True) (a\<lparr>state := st\<rparr>) = (cam, a2)"
      by (cases "ensurePublisherLocked (start e)
        (new_camera (a\<lparr>state := st\<rparr>) hs idx d True) (a\<lparr>state := st\<rparr>)")
    from ensure_fields[OF e] s have "state a2 \<noteq> NilMap" by simp
    with r True e show ?thesis by (simp add: refresh_device_def Let_def)
  next
    case False
    with r s show ?thesis by (simp add: refresh_device_def Let_def stop_fields)
  qed
qed

lemma refresh_devices_total:
  "state a \<noteq> NilMap \<Longrightarrow> \<exists>nxt' a'. refresh_devices e hs idx ds nxt a = Inr (nxt', a')"
proof (induction ds arbitrary: idx nxt a)
  case Nil
  show ?case by simp
next
  case (Cons d ds)
  from refresh_device_total[OF Cons.prems, of e hs idx d nxt] obtain n1 a1 where
    1: "refresh_device e hs idx d nxt a = Inr (n1, a1)" and 2: "state a1 \<noteq> NilMap" by blast
  from Cons.IH[OF 2, of "idx + 1" n1] 1 show ?case by simp
qed

lemma refreshCameras_total:
  assumes "state a \<noteq> NilMap"
  shows "\<exists>a'. refreshCameras discovered e a = Inr a'"
proof -
  from refresh_devices_total[OF assms] obtain nxt a1 where
    "refresh_devices e (slugify (hostname a)) 0 (sort_key dev_Node discovered) [] a = Inr (nxt, a1)"
    by blast
  then show ?thesis by (simp add: refreshCameras_alt)
qed

text \<open>
  Claim C6 says that save followed by load gives the mapping back for every
  \<open>deviceUID\<close>, so that a restart observes the same enabled value. The encoder replaces
  each byte of a key that is not valid UTF-8 by U+FFFD, so it does not. After the first
  cycle discovers \<open>dx\<close>, the mapping holds \<open>ux\<close>; once saved and loaded, it has no entry for
  \<open>ux\<close>. And when the agent has discovered \<open>dx\<close> and \<open>dr\<close> and disabled \<open>ur\<close>, the keys
  \<open>ux\<close> and \<open>ur\<close> are written as the same key and the later one, with value \<open>true\<close>,
  wins: the agent built anew from that disk finds the disabled camera \<open>ur\<close> enabled.
\<close>

theorem C6_round_trip_counterexample:
  "map_sum id (\<lambda>b. (gm_lookup (state b) ux,
                      gm_lookup (loadState (disk b) (StateFile (cfg b))) ux))
      (run [Refresh [dx] ok] agent0) = Inr (Some True, None)
   \<and> map_sum id (\<lambda>b. (gm_lookup (state b) ur, enabled_of b ur,
                        disk b (StateFile (cfg b)) = Some (MarshalIndent (state b)),
                        gm_lookup (loadState (disk b) (StateFile (cfg b))) ur))
        (run disable_ur_trace agent0) = Inr (Some False, Some False, True, Some True)
   \<and> map_sum id (\<lambda>b. map_sum id (\<lambda>b'. enabled_of b' ur)
                        (refreshCameras [dx, dr] ok (restarted b)))
        (run disable_ur_trace agent0) = Inr (Inr (Some True))"
  by code_simp

text \<open>
  Claim C6, amended. A discovered device whose \<open>deviceUID\<close> has no key in the state
  mapping has the key with value \<open>true\<close> after the cycle, its camera is enabled, and when
  the save of the cycle succeeds the state file holds that mapping. A mapping all of whose
  keys are valid UTF-8, saved and loaded again, has the same value at every key. So an
  agent that is built anew from a disk holding such a saved mapping of agent \<open>b\<close>, and
  that discovers a device whose \<open>deviceUID\<close> had the value \<open>v\<close> in that mapping, gives the
  camera the same enabled value \<open>v\<close>.
\<close>

theorem C6_seed_and_round_trip:
  "(refreshCameras discovered e a = Inr a' \<and> d \<in> set discovered
      \<and> uid = device_uid (hostname a) (dev_Node d) \<and> gm_lookup (state a) uid = None \<longrightarrow>
      gm_lookup (state a') uid = Some True \<and> enabled_of a' uid = Some True
      \<and> (fs e = FsOk \<longrightarrow> disk a' (StateFile (cfg a')) = Some (MarshalIndent (state a'))))
   \<and> (gm_wf m \<and> utf8_keys m \<longrightarrow>
        gm_lookup (loadState (snd (saveState FsOk path m dsk)) path) k = gm_lookup m k)
   \<and> (gm_wf (state b) \<and> utf8_keys (state b)
        \<and> disk b (StateFile (cfg b)) = Some (MarshalIndent (state b))
        \<and> gm_lookup (state b) uid' = Some v \<and> d' \<in> set discovered'
        \<and> uid' = device_uid (hostname b) (dev_Node d')
        \<and> refreshCameras discovered' e' (restarted b) = Inr b' \<longrightarrow>
        enabled_of b' uid' = Some v \<and> gm_lookup (state b') uid' = Some v)"
proof (intro conjI impI)
  assume h: "refreshCameras discovered e a = Inr a' \<and> d \<in> set discovered
      \<and> uid = device_uid (hostname a) (dev_Node d) \<and> gm_lookup (state a) uid = None"
  then have r: "refreshCameras discovered e a = Inr a'"
    and u: "uid \<in> uids_of (hostname a) discovered" and n: "gm_lookup (state a) uid = None"
    by (auto simp: uids_of_def)
  from refreshCameras_state[OF r, of uid] u n show s: "gm_lookup (state a') uid = Some True"
    by simp
  from refreshCameras_enabled[OF r, of uid] u s show "enabled_of a' uid = Some True" by simp
  assume "fs e = FsOk"
  with r show "disk a' (StateFile (cfg a')) = Some (MarshalIndent (state a'))"
    by (rule refreshCameras_saved)
next
  assume "gm_wf m \<and> utf8_keys m"
  then have "gm_wf m" "utf8_keys m" by blast+
  then show "gm_lookup (loadState (snd (saveState FsOk path m dsk)) path) k = gm_lookup m k"
    by (rule load_after_save(1)) simp
next
  assume h: "gm_wf (state b) \<and> utf8_keys (state b)
        \<and> disk b (StateFile (cfg b)) = Some (MarshalIndent (state b))
        \<and> gm_lookup (state b) uid' = Some v \<and> d' \<in> set discovered'
        \<and> uid' = device_uid (hostname b) (dev_Node d')
        \<and> refreshCameras discovered' e' (restarted b) = Inr b'"
  let ?n = "restarted b"
  from h have r: "refreshCameras discovered' e' ?n = Inr b'" by blast
  from h have u: "uid' \<in> uids_of (hostname ?n) discovered'"
    by (auto simp: uids_of_def new_agent_def restarted_def)
  from h have w: "gm_wf (state b)" "utf8_keys (state b)"
    and f: "disk b (StateFile (cfg b)) = Some (MarshalIndent (state b))" by blast+
  have "state ?n = loadState (disk b) (StateFile (cfg b))"
    by (simp add: new_agent_def restarted_def)
  moreover from h have "gm_lookup (state b) uid' = Some v" by blast
  moreover note load_after_save(1)[of "state b" "disk b" "StateFile (cfg b)" uid', OF w f]
  ultimately have "gm_lookup (state ?n) uid' = Some v"
    by simp
  with refreshCameras_state[OF r, of uid'] show s: "gm_lookup (state b') uid' = Some v" by simp
  with refreshCameras_enabled[OF r, of uid'] u show "enabled_of b' uid' = Some v" by simp
qed

lemma agent0_facts:
  "state agent0 = GoMap []" "hostname agent0 = ''cam-1''" "cfg agent0 = c0"
  "u0 = device_uid ''cam-1'' (dev_Node d0)"
  by (simp_all add: agent0_def new_agent_def loadState_def device_uid_def u0_def d0_def)

lemma disable_trace_run:
  "map_sum id (\<lambda>b. (gm_lookup (state b) u0, hostname b, cfg b = c0,
                     disk b (StateFile c0) = Some (MarshalIndent (state b)), state b \<noteq> NilMap,
                     utf8_keys (state b)))
     (run disable_trace agent0) = Inr (Some False, ''cam-1'', True, True, True, True)"
  by code_simp

lemma utf8_keys_u0: "utf8_keys (GoMap [(u0, False)])"
  by code_simp

text \<open>
  The hypotheses of C6 hold: the fresh agent sees \<open>u0\<close> for the first time; and the
  agent that disabled \<open>u0\<close> and saved is rebuilt from its disk and finds \<open>u0\<close> disabled.
\<close>

theorem C6_seed_and_round_trip_witness:
  "\<exists>a' (b::Agent) b'. refreshCameras [d0] ok agent0 = Inr a' \<and> d0 \<in> set [d0]
     \<and> u0 = device_uid (hostname agent0) (dev_Node d0)
     \<and> gm_lookup (state agent0) u0 = None
     \<and> gm_lookup (state a') u0 = Some True \<and> enabled_of a' u0 = Some True
     \<and> gm_wf (GoMap [(u0, False)]) \<and> utf8_keys (GoMap [(u0, False)])
     \<and> gm_lookup (loadState (snd (saveState FsOk (StateFile c0) (GoMap [(u0, False)]) Map.empty))
           (StateFile c0)) u0 = Some False
     \<and> gm_wf (state b) \<and> utf8_keys (state b)
     \<and> disk b (StateFile (cfg b)) = Some (MarshalIndent (state b))
     \<and> gm_lookup (state b) u0 = Some False
     \<and> u0 = device_uid (hostname b) (dev_Node d0)
     \<and> refreshCameras [d0] ok (restarted b) = Inr b'
     \<and> enabled_of b' u0 = Some False"
proof -
  obtain a' where a: "refreshCameras [d0] ok agent0 = Inr a'"
    using refreshCameras_total[of agent0 "[d0]" ok] by (auto simp: agent0_facts)
  have 1: "d0 \<in> set [d0]" "u0 = device_uid (hostname agent0) (dev_Node d0)"
    "gm_lookup (state agent0) u0 = None"
    using agent0_facts(4) by (simp_all add: agent0_facts(1-3))
  from C6_seed_and_round_trip[where discovered = "[d0]" and e = ok and a = agent0 and a' = a'
      and d = d0 and uid = u0] a 1
  have 2: "gm_lookup (state a') u0 = Some True" "enabled_of a' u0 = Some True" by blast+
  have 3: "gm_wf (GoMap [(u0, False)])" "utf8_keys (GoMap [(u0, False)])"
    using utf8_keys_u0 by simp_all
  from C6_seed_and_round_trip[where m = "GoMap [(u0, False)]" and path = "StateFile c0"
      and k = u0 and dsk = Map.empty] 3
  have "gm_lookup (loadState (snd (saveState FsOk (StateFile c0) (GoMap [(u0, False)]) Map.empty))
           (StateFile c0)) u0 = gm_lookup (GoMap [(u0, False)]) u0" by blast
  then have 4: "gm_lookup (loadState (snd (saveState FsOk (StateFile c0) (GoMap [(u0, False)])
           Map.empty)) (StateFile c0)) u0 = Some False" by simp
  from disable_trace_run obtain b where
    b: "run disable_trace agent0 = Inr b" and
    v: "(gm_lookup (state b) u0, hostname b, cfg b = c0,
         disk b (StateFile c0) = Some (MarshalIndent (state b)), state b \<noteq> NilMap,
         utf8_keys (state b))
        = (Some False, ''cam-1'', True, True, True, True)"
    by (cases "run disable_trace agent0") simp_all
  from run_reachable[OF reachable_agent0 b] have "agent_inv b" by (rule reachable_inv)
  with v have 5: "gm_wf (state b)" "utf8_keys (state b)" by (simp_all add: agent_inv_def)
  from v have 6: "disk b (StateFile (cfg b)) = Some (MarshalIndent (state b))"
    "gm_lookup (state b) u0 = Some False" "u0 = device_uid (hostname b) (dev_Node d0)"
    using agent0_facts(4) by simp_all
  from v have "state b \<noteq> NilMap" by simp
  with load_after_save(2)[of "state b" "disk b" "StateFile (cfg b)", OF 5 6(1)]
  have "state (restarted b) \<noteq> NilMap"
    by (simp add: new_agent_def restarted_def)
  from refreshCameras_total[OF this, of "[d0]" ok] obtain b' where
    7: "refreshCameras [d0] ok (restarted b) = Inr b'" by blast
  from C6_seed_and_round_trip[where b = b and uid' = u0 and v = False and d' = d0
      and discovered' = "[d0]" and e' = ok and b' = b'] 5 6 7
  have 8: "enabled_of b' u0 = Some False" by simp
  from a 1 2 3 4 5 6 7 8 show ?thesis by blast
qed

subsection \<open>Claim C10: the state mapping keeps its keys\<close>

lemma proc_exit_state: "state (proc_exit pid err a) = state a"
  by (simp add: proc_exit_def)

lemma watcher_restart_state: "state (watcher_restart st pid a) = state a"
  by (simp add: watcher_restart_alt ensure_in_table_fields finish_watcher_fields
      split: option.splits)

text \<open>
  Claim C10. Whatever step the agent takes (a cycle, a toggle request, the end of a process
  or a critical section of a goroutine), a key of the state mapping is still a key
  afterwards, with the same value unless the step is a toggle request for that key, which
  stores the requested value. In particular a device that is absent from one cycle keeps
  its entry although it leaves the camera table, and when a later cycle discovers it again
  its camera gets the stored flag.
\<close>

theorem C10_state_keys_kept:
  "(step ev a = Inr a' \<and> gm_lookup (state a) k = Some v \<longrightarrow>
      gm_lookup (state a') k = Some v
      \<or> (\<exists>r e en. ev = Toggle r e \<and> req_body r = Some (k, en)
            \<and> gm_lookup (state a') k = Some en))
   \<and> (refreshCameras absent eg b = Inr bg \<and> refreshCameras again eb bg = Inr bb
        \<and> gm_lookup (state b) uid = Some w
        \<and> uid \<notin> (\<lambda>d. device_uid (hostname b) (dev_Node d)) ` set absent
        \<and> uid \<in> (\<lambda>d. device_uid (hostname b) (dev_Node d)) ` set again \<longrightarrow>
        map_of (cameras bg) uid = None \<and> gm_lookup (state bg) uid = Some w
        \<and> enabled_of bb uid = Some w)"
proof (intro conjI impI)
  assume h: "step ev a = Inr a' \<and> gm_lookup (state a) k = Some v"
  then have s: "step ev a = Inr a'" and g: "gm_lookup (state a) k = Some v" by blast+
  show "gm_lookup (state a') k = Some v
      \<or> (\<exists>r e en. ev = Toggle r e \<and> req_body r = Some (k, en)
            \<and> gm_lookup (state a') k = Some en)"
  proof (cases ev)
    case (Refresh ds e)
    with s have "refreshCameras ds e a = Inr a'" by simp
    from refreshCameras_state[OF this, of k] g show ?thesis by simp
  next
    case (Toggle r e)
    with s obtain resp where t: "handleToggle e r a = Inr (resp, a')"
      by (auto split: sum.splits)
    then show ?thesis
    proof (cases rule: handleToggle_Inr)
      case 1
      with g show ?thesis by simp
    next
      case (2 u en cam st)
      from 2(6) have st: "state a' = st" by (simp add: toggled_state)
      show ?thesis
      proof (cases "k = u")
        case True
        with gm_assign_lookup[OF 2(4), of k] st have "gm_lookup (state a') k = Some en" by simp
        with True 2(2) Toggle show ?thesis by blast
      next
        case False
        with gm_assign_lookup[OF 2(4), of k] st g have "gm_lookup (state a') k = Some v" by simp
        then show ?thesis by blast
      qed
    qed
  next
    case (ProcExit pid err)
    with s have "state a' = state a" by (auto simp: proc_exit_state)
    with g show ?thesis by simp
  next
    case (WatcherExit pid)
    with s have "state a' = state a" by (auto simp: watcher_exit_fields)
    with g show ?thesis by simp
  next
    case (WatcherRestart pid st)
    with s have "state a' = state a" by (auto simp: watcher_restart_state)
    with g show ?thesis by simp
  qed
next
  assume h: "refreshCameras absent eg b = Inr bg \<and> refreshCameras again eb bg = Inr bb
        \<and> gm_lookup (state b) uid = Some w
        \<and> uid \<notin> (\<lambda>d. device_uid (hostname b) (dev_Node d)) ` set absent
        \<and> uid \<in> (\<lambda>d. device_uid (hostname b) (dev_Node d)) ` set again"
  then have r1: "refreshCameras absent eg b = Inr bg" and r2: "refreshCameras again eb bg = Inr bb"
    and g: "gm_lookup (state b) uid = Some w"
    and n1: "uid \<notin> uids_of (hostname b) absent" and n2': "uid \<in> uids_of (hostname b) again"
    unfolding uids_of_def by blast+
  from n2' refreshCameras_fields(1)[OF r1] have n2: "uid \<in> uids_of (hostname bg) again" by simp
  from refreshCameras_enabled[OF r1, of uid] n1 show "map_of (cameras bg) uid = None"
    by (simp add: enabled_of_def)
  from refreshCameras_state[OF r1, of uid] g show s1: "gm_lookup (state bg) uid = Some w"
    by simp
  from refreshCameras_state[OF r2, of uid] s1 have "gm_lookup (state bb) uid = Some w" by simp
  with refreshCameras_enabled[OF r2, of uid] n2 show "enabled_of bb uid = Some w" by simp
qed

text \<open>The hypotheses of C10 hold for the disabled camera \<open>u0\<close>, which vanishes and comes
  back disabled.\<close>

theorem C10_state_keys_kept_witness:
  "\<exists>b b1 b2. gm_lookup (state b) u0 = Some False
     \<and> step (Refresh [] ok) b = Inr b1 \<and> gm_lookup (state b1) u0 = Some False
     \<and> refreshCameras [] ok b = Inr b1 \<and> refreshCameras [d0] ok b1 = Inr b2
     \<and> u0 \<notin> (\<lambda>d. device_uid (hostname b) (dev_Node d)) ` set []
     \<and> u0 \<in> (\<lambda>d. device_uid (hostname b) (dev_Node d)) ` set [d0]
     \<and> map_of (cameras b1) u0 = None \<and> enabled_of b2 u0 = Some False"
proof -
  from disable_trace_run obtain b where
    b: "run disable_trace agent0 = Inr b" and
    v: "(gm_lookup (state b) u0, hostname b, cfg b = c0,
         disk b (StateFile c0) = Some (MarshalIndent (state b)), state b \<noteq> NilMap,
         utf8_keys (state b))
        = (Some False, ''cam-1'', True, True, True, True)"
    by (cases "run disable_trace agent0") simp_all
  from v have g: "gm_lookup (state b) u0 = Some False" and nn: "state b \<noteq> NilMap"
    and u: "u0 \<notin> (\<lambda>d. device_uid (hostname b) (dev_Node d)) ` set []"
      "u0 \<in> (\<lambda>d. device_uid (hostname b) (dev_Node d)) ` set [d0]"
    using agent0_facts(4) by simp_all
  from refreshCameras_total[OF nn, of "[]" ok] obtain b1 where
    r1: "refreshCameras [] ok b = Inr b1" by blast
  then have s1: "step (Refresh [] ok) b = Inr b1" by simp
  from C10_state_keys_kept[where ev = "Refresh [] ok" and a = b and a' = b1 and k = u0
      and v = False] s1 g
  have "gm_lookup (state b1) u0 = Some False
      \<or> (\<exists>r e en. Refresh [] ok = Toggle r e \<and> req_body r = Some (u0, en)
            \<and> gm_lookup (state b1) u0 = Some en)" by blast
  then have g1: "gm_lookup (state b1) u0 = Some False" by simp
  then have "state b1 \<noteq> NilMap" by (cases "state b1") auto
  from refreshCameras_total[OF this, of "[d0]" ok] obtain b2 where
    r2: "refreshCameras [d0] ok b1 = Inr b2" by blast
  from C10_state_keys_kept[where absent = "[]" and eg = ok and b = b and bg = b1 and again = "[d0]"
      and eb = ok and bb = b2 and uid = u0 and w = False] r1 r2 g u
  have "map_of (cameras b1) u0 = None" "enabled_of b2 u0 = Some False" by blast+
  with g s1 g1 r1 r2 u show ?thesis by blast
qed

end
